theory Spec2Isabelle
  imports Main "HOL-Library.AList"
begin

section \<open>The module entity of \<^verbatim>\<open>src/lib/ServerlessModule.js\<close>\<close>

text \<open>
  The class \<^verbatim>\<open>ServerlessModule\<close> is one node of a configuration tree kept on the file
  system: it owns descriptor fields and a map of child function entities.  The
  embedding keeps the methods' names and their order of checks.  Exceptions and promise
  rejections are values of \<open>error + 'a\<close>; a method that assigns to \<^verbatim>\<open>this\<close>, to its
  argument or to the file system returns the state it leaves behind next to its result.
\<close>

subsection \<open>Values\<close>

text \<open>
  A literal document is a JSON value.  An object is the list of its own properties in
  enumeration order; \<open>AList.update\<close> is JavaScript's property assignment (an existing key
  keeps its place, a new key goes last) and \<open>map_of\<close> is property lookup.
\<close>

datatype json =
    JNull
  | JBool bool
  | JNum int
  | JStr string
  | JArr "json list"
  | JObj "(string \<times> json) list"

text \<open>
  The test \<^verbatim>\<open>if (v)\<close> on such a value: \<^verbatim>\<open>null\<close>, \<^verbatim>\<open>false\<close>, \<^verbatim>\<open>0\<close> and the empty string are
  falsy, every object and every array is truthy.
\<close>

definition truthy_json :: "json \<Rightarrow> bool" where
  "truthy_json v =
     (case v of
        JNull \<Rightarrow> False | JBool b \<Rightarrow> b | JNum n \<Rightarrow> n \<noteq> 0 | JStr s \<Rightarrow> s \<noteq> []
      | JArr xs \<Rightarrow> True | JObj kvs \<Rightarrow> True)"

text \<open>A value that is no object, and the JSON value it is.\<close>

datatype atom = ANull | ABool bool | ANum int | AStr string

definition json_of_atom :: "atom \<Rightarrow> json" where
  "json_of_atom a =
     (case a of ANull \<Rightarrow> JNull | ABool b \<Rightarrow> JBool b | ANum n \<Rightarrow> JNum n | AStr s \<Rightarrow> JStr s)"

text \<open>
  \<open>SError\<close> is the repository's \<^verbatim>\<open>ServerlessError\<close> with its message, \<open>TypeError\<close> the
  runtime's own error (a property of \<^verbatim>\<open>null\<close>, a path that is not a string), \<open>IOError\<close>
  what the file system or the JSON parser raises.
\<close>

datatype error = SError string | TypeError string | IOError string

text \<open>
  A name is a string or \<^verbatim>\<open>undefined\<close>.  \<open>truthy\<close> is the test \<^verbatim>\<open>!x\<close> negated: \<^verbatim>\<open>undefined\<close>
  and the empty string are falsy.
\<close>

definition truthy :: "string option \<Rightarrow> bool" where
  "truthy v = (case v of None \<Rightarrow> False | Some s \<Rightarrow> s \<noteq> [])"

text \<open>
  A file system path is the list of its segments; \<^verbatim>\<open>path.join\<close> appends segments.  The
  empty path stands for the empty string, which is falsy.
\<close>

type_synonym path = "string list"

definition path_truthy :: "path option \<Rightarrow> bool" where
  "path_truthy v = (case v of None \<Rightarrow> False | Some p \<Rightarrow> p \<noteq> [])"

subsection \<open>The file system\<close>

text \<open>
  The text of a file is represented by what \<^verbatim>\<open>JSON.parse\<close> makes of it: \<open>JsonText d\<close> is
  the text \<^verbatim>\<open>JSON.stringify(d, null, 2)\<close>, \<open>OtherText s\<close> is a text that is not JSON.
  A directory exists when it was made (\<open>dirs\<close>) or when something lies beneath it.
\<close>

datatype content = JsonText json | OtherText string

record filesystem =
  files :: "(path \<times> content) list"
  dirs :: "path list"

definition is_file :: "filesystem \<Rightarrow> path \<Rightarrow> bool" where
  "is_file fs p = (map_of (files fs) p \<noteq> None)"

definition entries :: "filesystem \<Rightarrow> path list" where
  "entries fs = map fst (files fs) @ dirs fs"

definition is_dir :: "filesystem \<Rightarrow> path \<Rightarrow> bool" where
  "is_dir fs p = (p = [] \<or> p \<in> set (dirs fs) \<or>
     list_ex (\<lambda>q. length p < length q \<and> take (length p) q = p) (entries fs))"

text \<open>
  Modelled from the spec: the Document Store of section 6 (\<^verbatim>\<open>SUtils.fileExistsSync\<close>,
  \<^verbatim>\<open>SUtils.readAndParseJsonSync\<close>, \<^verbatim>\<open>SUtils.writeFile\<close> are not in the source file;
  \<^verbatim>\<open>fs.readdirSync\<close> and \<^verbatim>\<open>fs.mkdirSync\<close> are the platform's).  \<open>exists(path) -> bool\<close>,
  \<open>readJson(path) -> object\<close> failing on malformed JSON, \<open>writeFile(path, text)\<close>,
  \<open>listDirectory(path) -> sequence of names\<close>.
\<close>

definition fileExistsSync :: "filesystem \<Rightarrow> path \<Rightarrow> bool" where
  "fileExistsSync fs p = is_file fs p"

definition readAndParseJsonSync :: "filesystem \<Rightarrow> path \<Rightarrow> error + json" where
  "readAndParseJsonSync fs p =
     (case map_of (files fs) p of
        None \<Rightarrow> Inl (IOError ''ENOENT'')
      | Some (JsonText d) \<Rightarrow> Inr d
      | Some (OtherText s) \<Rightarrow> Inl (IOError ''SyntaxError''))"

definition readdirSync :: "filesystem \<Rightarrow> path \<Rightarrow> error + string list" where
  "readdirSync fs p =
     (if \<not> is_dir fs p
      then Inl (IOError (if is_file fs p then ''ENOTDIR'' else ''ENOENT''))
      else Inr (remdups (map (\<lambda>q. q ! length p)
                  (filter (\<lambda>q. length p < length q \<and> take (length p) q = p) (entries fs)))))"

definition mkdirSync :: "filesystem \<Rightarrow> path \<Rightarrow> error + filesystem" where
  "mkdirSync fs p =
     (if is_file fs p \<or> is_dir fs p then Inl (IOError ''EEXIST'')
      else if \<not> is_dir fs (butlast p) then Inl (IOError ''ENOENT'')
      else Inr (fs\<lparr>dirs := dirs fs @ [p]\<rparr>))"

definition writeFile :: "filesystem \<Rightarrow> path \<Rightarrow> content \<Rightarrow> filesystem" where
  "writeFile fs p c = fs\<lparr>files := AList.update p c (files fs)\<rparr>"

subsection \<open>The owning context and the collaborators\<close>

text \<open>
  The identity a caller passes to a constructor (\<^verbatim>\<open>config.component\<close>, \<^verbatim>\<open>config.module\<close>),
  and the one the module passes to a child's constructor.
\<close>

record identity =
  component :: "string option"
  module :: "string option"

record function_identity =
  fn_component :: "string option"
  fn_module :: "string option"
  fn_function :: "string option"

record options =
  stage :: "string option"
  region :: "string option"

record save_options =
  deep :: bool

text \<open>
  A child's population is asynchronous.  The module attaches a completion callback to
  the child's promise and does not wait for it (lines 192 to 197 return nothing), so
  what the callback finds depends on when the child settles: \<open>Early\<close> is a promise
  whose callback has run by the time the module's own promise hands its value to the
  caller, \<open>Late\<close> one that settles after that.
\<close>

datatype timing = Early | Late

record promise =
  settles :: timing
  outcome :: "error + json"

text \<open>
  The class \<^verbatim>\<open>_S.classes.Function\<close> is not in the source file: the context carries it, and
  the module only calls its constructor and these methods.  It is a parameter here, a
  record of the operations on a child entity of type \<open>'f\<close>.  The constructor and
  \<^verbatim>\<open>set\<close> may throw; \<^verbatim>\<open>get\<close> is the projection of section 4.4 of the specification;
  \<^verbatim>\<open>save\<close> leaves the child as it is and changes the file system.
\<close>

record 'f function_class =
  Function_new :: "function_identity \<Rightarrow> error + 'f"
  Function_load :: "filesystem \<Rightarrow> 'f \<Rightarrow> error + 'f"
  Function_set :: "'f \<Rightarrow> json \<Rightarrow> error + 'f"
  Function_get :: "'f \<Rightarrow> json"
  Function_getPopulated :: "'f \<Rightarrow> options \<Rightarrow> error + promise"
  Function_save :: "filesystem \<Rightarrow> 'f \<Rightarrow> error + filesystem"

text \<open>
  The context \<^verbatim>\<open>_S\<close>: \<^verbatim>\<open>_S.config.projectPath\<close> and \<^verbatim>\<open>_S.classes.Function\<close>.  An entity
  holds a reference to it and reads it when a method runs, so every method takes the
  context as it is at the call; \<^verbatim>\<open>set\<close>, which can replace the reference, returns the
  context the entity refers to afterwards.
\<close>

record 'f serverless =
  projectPath :: "path option"
  classes_Function :: "'f function_class"

subsection \<open>The entity\<close>

text \<open>
  \<^verbatim>\<open>_config\<close> of an entity; a field that was never assigned is \<^verbatim>\<open>undefined\<close>.
\<close>

record mconfig =
  cfg_component :: "string option"
  cfg_module :: "string option"
  sPath :: "string option"
  fullPath :: "path option"

text \<open>
  The entity: \<^verbatim>\<open>_config\<close>, the map \<^verbatim>\<open>functions\<close> of live children, and \<open>descriptor\<close>, its
  other own properties (name, version, ..., and whatever \<^verbatim>\<open>set\<close> or \<^verbatim>\<open>load\<close> merged in).
  The names \<^verbatim>\<open>_S\<close> and \<^verbatim>\<open>_config\<close> are not keys of \<open>descriptor\<close>.  The property
  \<^verbatim>\<open>functions\<close> is an object after the constructor and after \<^verbatim>\<open>load\<close>: then it is the map
  \<open>functions\<close>, and \<open>descriptor\<close> has no key \<^verbatim>\<open>functions\<close>.  \<^verbatim>\<open>set\<close> can leave a value there
  that is no object (\<^verbatim>\<open>null\<close>, a boolean, a number, the empty string): then \<open>descriptor\<close>
  has that value under the key \<^verbatim>\<open>functions\<close>, and the map \<open>functions\<close> is empty.
\<close>

record 'f module_entity =
  config :: mconfig
  descriptor :: "(string \<times> json) list"
  "functions" :: "(string \<times> 'f) list"

subsection \<open>The helpers\<close>

text \<open>
  The helpers of \<^verbatim>\<open>SUtils\<close> and the package version are not in the source file; they
  are parameters.  The Path Resolver of section 6 builds the canonical identity string
  and parses it back into component and module; the identifier generator returns a
  string of the given length; the Populator resolves placeholders in a document
  against stage and region.
\<close>

record sutils =
  generateShortId :: "nat \<Rightarrow> string"
  buildSPath :: "string option \<Rightarrow> string option \<Rightarrow> string"
  parseSPath :: "string \<Rightarrow> string \<times> string"
  populate :: "json module_entity \<Rightarrow> string option \<Rightarrow> string option \<Rightarrow> error + (string \<times> json) list"
  package_version :: string

text \<open>
  The value of \<^verbatim>\<open>a || b\<close> on names, and the string a name becomes when it is
  concatenated to one.
\<close>

definition or_else :: "string option \<Rightarrow> string \<Rightarrow> string" where
  "or_else v d = (case v of None \<Rightarrow> d | Some s \<Rightarrow> if s = [] then d else s)"

definition string_of :: "string option \<Rightarrow> string" where
  "string_of v = (case v of None \<Rightarrow> ''undefined'' | Some s \<Rightarrow> s)"

text \<open>The identity the module gives the constructor of a child (lines 106 and 141).\<close>

definition child_identity :: "mconfig \<Rightarrow> string \<Rightarrow> function_identity" where
  "child_identity c prop =
     \<lparr>fn_component = cfg_component c, fn_module = cfg_module c, fn_function = Some prop\<rparr>"

subsection \<open>Constructor and updateConfig\<close>

text \<open>
  \<^verbatim>\<open>updateConfig(config)\<close>, lines 52 to 70: nothing for a missing config; the identity
  and \<^verbatim>\<open>sPath\<close> when one of the two names is truthy; \<^verbatim>\<open>fullPath\<close> when the context has a
  project path and \<^verbatim>\<open>sPath\<close> is truthy.
\<close>

definition updateConfig ::
  "'f serverless \<Rightarrow> sutils \<Rightarrow> mconfig \<Rightarrow> identity option \<Rightarrow> mconfig" where
  "updateConfig S U c cfg =
     (case cfg of
        None \<Rightarrow> c
      | Some i \<Rightarrow>
          let c1 = (if truthy (component i) \<or> truthy (module i)
                    then c\<lparr>cfg_component := component i, cfg_module := module i,
                           sPath := Some (buildSPath U (component i) (module i))\<rparr>
                    else c)
          in (case (projectPath S, sPath c1) of
                (Some root, Some sp) \<Rightarrow>
                  if root \<noteq> [] \<and> sp \<noteq> []
                  then (case parseSPath U sp of
                          (pc, pm) \<Rightarrow> c1\<lparr>fullPath := Some (root @ [pc, pm])\<rparr>)
                  else c1
              | _ \<Rightarrow> c1))"

definition empty_config :: mconfig where
  "empty_config = \<lparr>cfg_component = None, cfg_module = None, sPath = None, fullPath = None\<rparr>"

text \<open>The default properties of lines 32 to 44, in the order of their assignment.\<close>

definition default_fields :: "sutils \<Rightarrow> mconfig \<Rightarrow> (string \<times> json) list" where
  "default_fields U c =
     [(''name'', JStr (or_else (cfg_module c) (''module'' @ generateShortId U 6))),
      (''version'', JStr ''0.0.1''),
      (''profile'', JStr (''aws-v'' @ package_version U)),
      (''location'', JStr ''https://github.com/...''),
      (''author'', JStr ''''),
      (''description'', JStr ''A Serverless Module''),
      (''runtime'', JStr ''nodejs''),
      (''custom'', JObj []),
      (''cloudFormation'',
         JObj [(''resources'', JObj []), (''lambdaIamPolicyDocumentStatements'', JArr [])])]"

text \<open>\<^verbatim>\<open>constructor(Serverless, config)\<close>, lines 21 to 45.\<close>

definition ServerlessModule ::
  "'f serverless \<Rightarrow> sutils \<Rightarrow> identity \<Rightarrow> error + 'f module_entity" where
  "ServerlessModule S U i =
     (if \<not> truthy (component i) \<or> \<not> truthy (module i)
      then Inl (SError ''Missing required config.component or config.module'')
      else
        let c = updateConfig S U empty_config (Some i)
        in Inr \<lparr>config = c, descriptor = default_fields U c, functions = []\<rparr>)"

subsection \<open>set\<close>

text \<open>
  A value under \<^verbatim>\<open>data.functions\<close> is a literal document or a live instance of
  \<^verbatim>\<open>_S.classes.Function\<close> (the test \<^verbatim>\<open>instanceof\<close> of line 137).  The property
  \<^verbatim>\<open>data.functions\<close> itself is absent, a value that is no object, or an object, the list
  of its properties (an array has its indices as keys).
\<close>

datatype 'f fval = Literal json | Instance 'f

datatype 'f dfunctions = Absent | Value atom | Entries "(string \<times> 'f fval) list"

text \<open>
  The argument of \<^verbatim>\<open>set\<close> is an object.  \<^verbatim>\<open>_.extend\<close> copies every own property of it, so
  the properties that \<^verbatim>\<open>set\<close> or a later method reads are kept apart: \<open>doc_S\<close> is its
  property \<^verbatim>\<open>_S\<close> when it has one (a context), \<open>doc_config\<close> its property \<^verbatim>\<open>_config\<close> when
  it has one (an object with the fields of an entity's \<^verbatim>\<open>_config\<close>), \<open>doc_functions\<close> its
  property \<^verbatim>\<open>functions\<close>, and \<open>other_fields\<close> its properties under every other name,
  the entries of \<open>doc_fields\<close> that are not under one of these three names.
\<close>

record 'f document =
  doc_S :: "'f serverless option"
  doc_config :: "mconfig option"
  doc_functions :: "'f dfunctions"
  doc_fields :: "(string \<times> json) list"

definition reserved :: "string \<Rightarrow> bool" where
  "reserved k = (k = ''_S'' \<or> k = ''_config'' \<or> k = ''functions'')"

definition other_fields :: "'f document \<Rightarrow> (string \<times> json) list" where
  "other_fields data = filter (\<lambda>kv. \<not> reserved (fst kv)) (doc_fields data)"

text \<open>
  The loop of lines 135 to 147 over the keys of an object \<^verbatim>\<open>data.functions\<close>.  It assigns
  to \<^verbatim>\<open>data.functions[prop]\<close>, so it returns the map as the loop leaves it: entries
  before a throw are already replaced, the others are as they were.  The throw is that
  of line 138, of the child's constructor or of the child's \<^verbatim>\<open>set\<close>.
\<close>

fun set_loop ::
  "'f function_class \<Rightarrow> mconfig \<Rightarrow> (string \<times> 'f fval) list
     \<Rightarrow> error option \<times> (string \<times> 'f fval) list" where
  "set_loop F c [] = (None, [])"
| "set_loop F c ((prop, v) # rest) =
     (case v of
        Instance f \<Rightarrow>
          (Some (SError ''You cannot pass subclasses into the set method, only object literals''),
           (prop, v) # rest)
      | Literal d \<Rightarrow>
          (case Function_new F (child_identity c prop) of
             Inl err \<Rightarrow> (Some err, (prop, v) # rest)
           | Inr instance \<Rightarrow>
               (case Function_set F instance d of
                  Inl err \<Rightarrow> (Some err, (prop, v) # rest)
                | Inr child \<Rightarrow>
                    (case set_loop F c rest of
                       (r, rest') \<Rightarrow> (r, (prop, Instance child) # rest')))))"

text \<open>
  The same loop over a value that is no object.  \<^verbatim>\<open>null\<close>, a boolean and a number have
  nothing to enumerate.  \<^verbatim>\<open>for in\<close> enumerates the indices of a string, so there is no
  iteration for the empty string; for any other string the first iteration reads a
  character under the key \<^verbatim>\<open>0\<close>, which is no instance, constructs a child for that key,
  calls its \<^verbatim>\<open>set\<close> with the character, and then the assignment of line 146 to an index
  of a string throws (the file is in strict mode).
\<close>

definition set_atom :: "'f function_class \<Rightarrow> mconfig \<Rightarrow> atom \<Rightarrow> error option" where
  "set_atom F c a =
     (case a of
        AStr s \<Rightarrow>
          (case s of
             [] \<Rightarrow> None
           | ch # rest \<Rightarrow>
               (case Function_new F (child_identity c ''0'') of
                  Inl err \<Rightarrow> Some err
                | Inr instance \<Rightarrow>
                    (case Function_set F instance (JStr [ch]) of
                       Inl err \<Rightarrow> Some err
                     | Inr child \<Rightarrow>
                         Some (TypeError ''Cannot assign to read only property 0 of string''))))
      | _ \<Rightarrow> None)"

text \<open>
  What section 4.3 of the specification asks of an entry of \<^verbatim>\<open>data.functions\<close> after
  \<^verbatim>\<open>set\<close>: under the same key, the live instance that the constructor made for that key
  and that the child's own \<^verbatim>\<open>set\<close> was called on with the literal.
\<close>

definition materialised ::
  "'f function_class \<Rightarrow> mconfig \<Rightarrow> string \<times> 'f fval \<Rightarrow> string \<times> 'f fval \<Rightarrow> bool" where
  "materialised F c before after =
     (fst after = fst before \<and>
      (\<exists>d instance child. snd before = Literal d
          \<and> Function_new F (child_identity c (fst before)) = Inr instance
          \<and> Function_set F instance d = Inr child
          \<and> snd after = Instance child))"

text \<open>
  An entry is a literal when it is no instance of the child class.  \<open>rejection\<close> is what
  one iteration of the loop throws on an entry: the error of line 138 on an instance,
  the error of the child's constructor on the identity the module builds for the key,
  or the error of the new child's \<^verbatim>\<open>set\<close> on the literal.  The loop gets past an entry
  that is \<open>accepted\<close>, one on which nothing is thrown.
\<close>

definition is_literal :: "'f fval \<Rightarrow> bool" where
  "is_literal v = (case v of Literal d \<Rightarrow> True | Instance f \<Rightarrow> False)"

definition rejection :: "'f function_class \<Rightarrow> mconfig \<Rightarrow> string \<times> 'f fval \<Rightarrow> error option" where
  "rejection F c kv =
     (case snd kv of
        Instance f \<Rightarrow>
          Some (SError ''You cannot pass subclasses into the set method, only object literals'')
      | Literal d \<Rightarrow>
          (case Function_new F (child_identity c (fst kv)) of
             Inl err \<Rightarrow> Some err
           | Inr instance \<Rightarrow>
               (case Function_set F instance d of
                  Inl err \<Rightarrow> Some err
                | Inr child \<Rightarrow> None)))"

definition accepted :: "'f function_class \<Rightarrow> mconfig \<Rightarrow> string \<times> 'f fval \<Rightarrow> bool" where
  "accepted F c kv = (rejection F c kv = None)"

text \<open>
  \<^verbatim>\<open>_.assign\<close> and \<^verbatim>\<open>_.extend\<close> on the descriptor: each property of the source is
  assigned to the destination, in the source's order.
\<close>

definition assign :: "(string \<times> json) list \<Rightarrow> (string \<times> json) list \<Rightarrow> (string \<times> json) list" where
  "assign dst src = foldl (\<lambda>acc kv. AList.update (fst kv) (snd kv) acc) dst src"

fun instances :: "(string \<times> 'f fval) list \<Rightarrow> (string \<times> 'f) list" where
  "instances [] = []"
| "instances ((k, Instance f) # rest) = (k, f) # instances rest"
| "instances ((k, Literal d) # rest) = instances rest"

text \<open>
  \<^verbatim>\<open>_.extend(_this, data)\<close>, line 150, on the entity: \<^verbatim>\<open>_config\<close> is replaced when the
  argument has one; the other properties are assigned; \<^verbatim>\<open>functions\<close> is left when the
  argument has none, and is otherwise the argument's, a value that is no object or the
  object that now holds the instances (the merge is reached only when the loop has
  replaced every entry).
\<close>

definition extend_this :: "'f module_entity \<Rightarrow> 'f document \<Rightarrow> 'f module_entity" where
  "extend_this e data =
     \<lparr>config = (case doc_config data of None \<Rightarrow> config e | Some c \<Rightarrow> c),
      descriptor =
        (case doc_functions data of
           Absent \<Rightarrow> assign (descriptor e) (other_fields data)
         | Value a \<Rightarrow>
             AList.update ''functions'' (json_of_atom a) (assign (descriptor e) (other_fields data))
         | Entries fs \<Rightarrow> AList.delete ''functions'' (assign (descriptor e) (other_fields data))),
      functions =
        (case doc_functions data of
           Absent \<Rightarrow> functions e
         | Value a \<Rightarrow> []
         | Entries fs \<Rightarrow> instances fs)\<rparr>"

text \<open>The same on the context the entity refers to: \<^verbatim>\<open>_S\<close> is replaced when the argument has one.\<close>

definition extend_S :: "'f serverless \<Rightarrow> 'f document \<Rightarrow> 'f serverless" where
  "extend_S S data = (case doc_S data of None \<Rightarrow> S | Some other \<Rightarrow> other)"

text \<open>
  What a call of \<^verbatim>\<open>set\<close> leaves: the returned value or the error thrown, the argument
  \<^verbatim>\<open>data\<close>, the entity \<^verbatim>\<open>this\<close> and the context \<^verbatim>\<open>this._S\<close> after the call.
\<close>

record 'f after_set =
  returned :: "error + 'f module_entity"
  data_after :: "'f document"
  this_after :: "'f module_entity"
  S_after :: "'f serverless"

text \<open>
  \<^verbatim>\<open>set(data)\<close>, lines 131 to 152: the loop, which reads the child class and \<^verbatim>\<open>_config\<close> as
  they are before the merge, and then the merge.
\<close>

definition merged :: "'f serverless \<Rightarrow> 'f document \<Rightarrow> 'f module_entity \<Rightarrow> 'f after_set" where
  "merged S data e =
     \<lparr>returned = Inr (extend_this e data), data_after = data,
      this_after = extend_this e data, S_after = extend_S S data\<rparr>"

definition thrown :: "error \<Rightarrow> 'f serverless \<Rightarrow> 'f document \<Rightarrow> 'f module_entity \<Rightarrow> 'f after_set" where
  "thrown err S data e = \<lparr>returned = Inl err, data_after = data, this_after = e, S_after = S\<rparr>"

definition set_m :: "'f serverless \<Rightarrow> 'f document \<Rightarrow> 'f module_entity \<Rightarrow> 'f after_set" where
  "set_m S data e =
     (case doc_functions data of
        Absent \<Rightarrow> merged S data e
      | Value a \<Rightarrow>
          (case set_atom (classes_Function S) (config e) a of
             Some err \<Rightarrow> thrown err S data e
           | None \<Rightarrow> merged S data e)
      | Entries fs \<Rightarrow>
          (case set_loop (classes_Function S) (config e) fs of
             (Some err, fs') \<Rightarrow> thrown err S (data\<lparr>doc_functions := Entries fs'\<rparr>) e
           | (None, fs') \<Rightarrow> merged S (data\<lparr>doc_functions := Entries fs'\<rparr>) e))"

subsection \<open>get\<close>

text \<open>
  Modelled from the spec: \<^verbatim>\<open>SUtils.exportClassData\<close> is not in the source file.  Section
  4.4: it strips the internal-only fields (context reference, derived paths) from the
  clone and returns a plain exportable document, here the descriptor with the
  \<^verbatim>\<open>functions\<close> property: the value \<open>descriptor\<close> has for it when it is no object, the
  map otherwise.
\<close>

definition exportClassData :: "json module_entity \<Rightarrow> json" where
  "exportClassData clone =
     (case map_of (descriptor clone) ''functions'' of
        Some v \<Rightarrow> JObj (descriptor clone)
      | None \<Rightarrow> JObj (AList.update ''functions'' (JObj (functions clone)) (descriptor clone)))"

text \<open>
  \<^verbatim>\<open>get()\<close>, lines 159 to 165: the clone of \<^verbatim>\<open>this\<close> with each child replaced by the
  child's own \<^verbatim>\<open>get()\<close>, exported.  On values \<^verbatim>\<open>_.cloneDeep\<close> is the identity; the
  store of section "get on a store" below makes the copy explicit.
\<close>

definition get :: "'f serverless \<Rightarrow> 'f module_entity \<Rightarrow> json" where
  "get S e =
     exportClassData
       \<lparr>config = config e, descriptor = descriptor e,
        functions = map (\<lambda>pf. (fst pf, Function_get (classes_Function S) (snd pf))) (functions e)\<rparr>"

text \<open>The keys of \<^verbatim>\<open>this.functions\<close>.\<close>

definition child_names :: "'f module_entity \<Rightarrow> string list" where
  "child_names e = map fst (functions e)"

subsection \<open>getPopulated\<close>

text \<open>
  The loop of lines 192 to 197 inside the first callback.  A child whose
  \<^verbatim>\<open>getPopulated\<close> throws makes the callback throw.  Otherwise a callback is attached to
  the child's promise and the loop goes on; the entry is in \<^verbatim>\<open>clone.functions\<close> when the
  module's promise resolves only if the child's promise was fulfilled early.
\<close>

fun populate_children ::
  "'f function_class \<Rightarrow> options \<Rightarrow> (string \<times> 'f) list \<Rightarrow> (string \<times> json) list
     \<Rightarrow> error + (string \<times> json) list" where
  "populate_children F opts [] acc = Inr acc"
| "populate_children F opts ((prop, f) # rest) acc =
     (case Function_getPopulated F f opts of
        Inl err \<Rightarrow> Inl err
      | Inr p \<Rightarrow>
          (case (settles p, outcome p) of
             (Early, Inr newData) \<Rightarrow>
               populate_children F opts rest (AList.update prop newData acc)
           | _ \<Rightarrow> populate_children F opts rest acc))"

text \<open>
  Line 186, \<^verbatim>\<open>if (clone.functions) clone.functions = {}\<close>, on the descriptor of the clone: a
  truthy value under \<^verbatim>\<open>functions\<close> that is no object gives way to the empty map, a falsy
  one stays.
\<close>

definition emptied :: "(string \<times> json) list \<Rightarrow> (string \<times> json) list" where
  "emptied kvs =
     (case map_of kvs ''functions'' of
        None \<Rightarrow> kvs
      | Some v \<Rightarrow> if truthy_json v then AList.delete ''functions'' kvs else kvs)"

text \<open>
  \<^verbatim>\<open>getPopulated(options)\<close>, lines 172 to 202; \<open>or_empty\<close> is \<^verbatim>\<open>options || {}\<close>.  The result
  is the error thrown, the rejection, or the value the returned promise resolves with,
  as it is at that moment.
\<close>

definition or_empty :: "options option \<Rightarrow> options" where
  "or_empty options = (case options of None \<Rightarrow> \<lparr>stage = None, region = None\<rparr> | Some given \<Rightarrow> given)"

definition getPopulated ::
  "'f serverless \<Rightarrow> sutils \<Rightarrow> options option \<Rightarrow> 'f module_entity \<Rightarrow> error + json" where
  "getPopulated S U options e =
     (let opts = or_empty options
      in if \<not> truthy (stage opts) \<or> \<not> truthy (region opts)
         then Inl (SError ''Both \"stage\" and \"region\" params are required'')
         else if \<not> path_truthy (projectPath S)
         then Inl (SError ''Module could not be populated because no project path has been set on Serverless instance'')
         else
           (case populate U \<lparr>config = config e, descriptor = emptied (descriptor e),
                             functions = []\<rparr>
                   (stage opts) (region opts) of
              Inl err \<Rightarrow> Inl err
            | Inr data \<Rightarrow>
                (case populate_children (classes_Function S) opts (functions e) [] of
                   Inl err \<Rightarrow> Inl err
                 | Inr children \<Rightarrow>
                     Inr (JObj (AList.update ''functions'' (JObj children) data)))))"

subsection \<open>load\<close>

text \<open>The decimal name of an array index, as a property key.\<close>

fun digit :: "nat \<Rightarrow> char" where
  "digit n = char_of (48 + n)"

function string_of_nat :: "nat \<Rightarrow> string" where
  "string_of_nat n = (if n < 10 then [digit n] else string_of_nat (n div 10) @ [digit (n mod 10)])"
  by pat_completeness auto
termination
  by (relation "measure id") auto

text \<open>
  The own properties \<^verbatim>\<open>_.assign\<close> copies from the parsed descriptor once line 95 has
  assigned \<^verbatim>\<open>moduleJson.functions\<close>; that property is kept apart (\<open>load_children\<close>
  fills it).  The assignment of line 95 throws on \<^verbatim>\<open>null\<close> and, in strict mode, on a
  number, a string or a boolean; an array has its indices as keys.
\<close>

definition own_properties :: "json \<Rightarrow> error + (string \<times> json) list" where
  "own_properties j =
     (case j of
        JObj kvs \<Rightarrow> Inr (AList.delete ''functions'' kvs)
      | JArr xs \<Rightarrow> Inr (zip (map string_of_nat [0 ..< length xs]) xs)
      | _ \<Rightarrow> Inl (TypeError ''Cannot set property functions''))"

text \<open>
  The iteration \<^verbatim>\<open>.each\<close> of lines 100 to 116 over the directory's entries, one after the
  other: an entry without \<^verbatim>\<open>s-function.json\<close> is skipped; a child that cannot be
  constructed or loaded rejects the whole load.
\<close>

fun load_children ::
  "'f function_class \<Rightarrow> filesystem \<Rightarrow> mconfig \<Rightarrow> path \<Rightarrow> string list \<Rightarrow> (string \<times> 'f) list
     \<Rightarrow> error + (string \<times> 'f) list" where
  "load_children F fs c p [] acc = Inr acc"
| "load_children F fs c p (f # rest) acc =
     (if \<not> fileExistsSync fs (p @ [f, ''s-function.json''])
      then load_children F fs c p rest acc
      else
        (case Function_new F (child_identity c f) of
           Inl err \<Rightarrow> Inl err
         | Inr func \<Rightarrow>
             (case Function_load F fs func of
                Inl err \<Rightarrow> Inl err
              | Inr instance \<Rightarrow> load_children F fs c p rest (AList.update f instance acc))))"

text \<open>
  \<^verbatim>\<open>load()\<close>, lines 78 to 123.  The result is the rejection or the value the promise
  resolves with; the second component is \<^verbatim>\<open>this\<close> after the call.  \<^verbatim>\<open>path.join\<close> throws
  a \<open>TypeError\<close> when \<^verbatim>\<open>_config.fullPath\<close> is \<^verbatim>\<open>undefined\<close>.  The merge of line 120
  assigns the map of loaded children to \<^verbatim>\<open>this.functions\<close>, whatever was there.
\<close>

definition load ::
  "'f serverless \<Rightarrow> filesystem \<Rightarrow> 'f module_entity
     \<Rightarrow> (error + 'f module_entity) \<times> 'f module_entity" where
  "load S fs e =
     (if \<not> path_truthy (projectPath S)
      then (Inl (SError ''Module could not be loaded because no project path has been set on Serverless instance''), e)
      else
        (case fullPath (config e) of
           None \<Rightarrow> (Inl (TypeError ''Path must be a string''), e)
         | Some p \<Rightarrow>
             if \<not> fileExistsSync fs (p @ [''s-module.json''])
             then (Inl (SError (''Module could not be loaded because it does not exist in your project: ''
                                 @ string_of (sPath (config e)))), e)
             else
               (case readAndParseJsonSync fs (p @ [''s-module.json'']) of
                  Inl err \<Rightarrow> (Inl err, e)
                | Inr moduleJson \<Rightarrow>
                    (case own_properties moduleJson of
                       Inl err \<Rightarrow> (Inl err, e)
                     | Inr props \<Rightarrow>
                         (case readdirSync fs p of
                            Inl err \<Rightarrow> (Inl err, e)
                          | Inr moduleContents \<Rightarrow>
                              (case load_children (classes_Function S) fs (config e) p moduleContents [] of
                                 Inl err \<Rightarrow> (Inl err, e)
                               | Inr children \<Rightarrow>
                                   (let e' = e\<lparr>descriptor := AList.delete ''functions''
                                                                (assign (descriptor e) props),
                                                functions := children\<rparr>
                                    in (Inr e', e'))))))))"

subsection \<open>save\<close>

text \<open>
  \<^verbatim>\<open>_create()\<close>, lines 277 to 292: the directory is made first (synchronously, it throws
  when the directory exists or its parent does not), then the empty templates
  document is written.
\<close>

definition create :: "filesystem \<Rightarrow> path \<Rightarrow> error + filesystem" where
  "create fs p =
     (case mkdirSync fs p of
        Inl err \<Rightarrow> Inl err
      | Inr fs' \<Rightarrow> Inr (writeFile fs' (p @ [''s-templates.json'']) (JsonText (JObj []))))"

text \<open>
  The iteration of lines 247 to 252 over \<^verbatim>\<open>Object.keys(_this.functions)\<close>: the children
  are saved one after the other, and the first failure stops it.
\<close>

fun save_children ::
  "'f function_class \<Rightarrow> filesystem \<Rightarrow> (string \<times> 'f) list \<Rightarrow> error option \<times> filesystem" where
  "save_children F fs [] = (None, fs)"
| "save_children F fs ((f, child) # rest) =
     (case Function_save F fs child of
        Inl err \<Rightarrow> (Some err, fs)
      | Inr fs' \<Rightarrow> save_children F fs' rest)"

text \<open>
  Line 260, \<^verbatim>\<open>if (clone.functions) delete clone.functions\<close>, on the snapshot of line 257:
  the property is deleted when its value is truthy, and stays when it is falsy.
\<close>

definition strip_functions :: "json \<Rightarrow> json" where
  "strip_functions clone =
     (case clone of
        JObj kvs \<Rightarrow>
          (case map_of kvs ''functions'' of
             None \<Rightarrow> clone
           | Some v \<Rightarrow> if truthy_json v then JObj (AList.delete ''functions'' kvs) else clone)
      | other \<Rightarrow> other)"

text \<open>
  \<^verbatim>\<open>Object.keys(_this.functions)\<close> of line 248 throws a \<open>TypeError\<close> on \<^verbatim>\<open>null\<close>; a boolean,
  a number and the empty string have no keys.
\<close>

definition keys_throw :: "'f module_entity \<Rightarrow> bool" where
  "keys_throw e = (map_of (descriptor e) ''functions'' = Some JNull)"

text \<open>The test \<^verbatim>\<open>options && options.deep\<close> of line 246.\<close>

definition is_deep :: "save_options option \<Rightarrow> bool" where
  "is_deep options = (case options of None \<Rightarrow> False | Some given \<Rightarrow> deep given)"

text \<open>
  \<^verbatim>\<open>save(options)\<close>, lines 229 to 270.  The result is the rejection or the value the
  promise resolves with (\<^verbatim>\<open>this\<close>, which \<^verbatim>\<open>save\<close> does not assign to); the second
  component is the file system after the call.
\<close>

definition save ::
  "'f serverless \<Rightarrow> save_options option \<Rightarrow> filesystem \<Rightarrow> 'f module_entity
     \<Rightarrow> (error + 'f module_entity) \<times> filesystem" where
  "save S options fs e =
     (if \<not> path_truthy (projectPath S)
      then (Inl (SError ''Module could not be saved because no project path has been set on Serverless instance''), fs)
      else
        (case fullPath (config e) of
           None \<Rightarrow> (Inl (TypeError ''Path must be a string''), fs)
         | Some p \<Rightarrow>
             (case (if \<not> fileExistsSync fs (p @ [''s-module.json''])
                    then create fs p else Inr fs) of
                Inl err \<Rightarrow> (Inl err, fs)
              | Inr fs1 \<Rightarrow>
                  (case (if is_deep options
                         then (if keys_throw e
                               then (Some (TypeError ''Cannot convert undefined or null to object''), fs1)
                               else save_children (classes_Function S) fs1 (functions e))
                         else (None, fs1)) of
                     (Some err, fs2) \<Rightarrow> (Inl err, fs2)
                   | (None, fs2) \<Rightarrow>
                       (Inr e, writeFile fs2 (p @ [''s-module.json''])
                                 (JsonText (strip_functions (get S e))))))))"

subsection \<open>A leaf class and a context for the examples\<close>

text \<open>
  Modelled from the spec: the Function Entity is not in the source file.  Section 2
  calls it a sibling of the module with the same lifecycle at leaf level: it is
  constructed from an identity of three names, keeps one document, loads it from and
  saves it to \<^verbatim>\<open>s-function.json\<close> in its own directory, and populates asynchronously.
  \<open>Leaf root when\<close> is such a class under the project path \<open>root\<close> whose populations
  settle \<open>when\<close>.  Only the examples at concrete inputs use it.
\<close>

record leaf =
  leaf_path :: path
  leaf_doc :: json

definition Leaf :: "path \<Rightarrow> timing \<Rightarrow> leaf function_class" where
  "Leaf root when =
     \<lparr>Function_new = (\<lambda>i.
        if truthy (fn_component i) \<and> truthy (fn_module i) \<and> truthy (fn_function i)
        then Inr \<lparr>leaf_path = root @ [or_else (fn_component i) [], or_else (fn_module i) [],
                                       or_else (fn_function i) []],
                  leaf_doc = JObj []\<rparr>
        else Inl (SError ''Missing required config.component, config.module or config.function'')),
      Function_load = (\<lambda>fs l.
        (case readAndParseJsonSync fs (leaf_path l @ [''s-function.json'']) of
           Inl err \<Rightarrow> Inl err
         | Inr d \<Rightarrow> Inr (l\<lparr>leaf_doc := d\<rparr>))),
      Function_set = (\<lambda>l d. Inr (l\<lparr>leaf_doc := d\<rparr>)),
      Function_get = leaf_doc,
      Function_getPopulated = (\<lambda>l opts. Inr \<lparr>settles = when, outcome = Inr (leaf_doc l)\<rparr>),
      Function_save = (\<lambda>fs l.
        Inr (writeFile fs (leaf_path l @ [''s-function.json'']) (JsonText (leaf_doc l))))\<rparr>"

text \<open>
  Helpers for the examples: identities are joined with a slash and split at the first
  one, the generated identifier is a fixed string, and the Populator returns the
  descriptor of the clone it is given.
\<close>

definition split_slash :: "string \<Rightarrow> string \<times> string" where
  "split_slash s =
     (takeWhile (\<lambda>c. c \<noteq> CHR ''/'') s, drop 1 (dropWhile (\<lambda>c. c \<noteq> CHR ''/'') s))"

definition example_utils :: sutils where
  "example_utils =
     \<lparr>generateShortId = (\<lambda>n. replicate n CHR ''x''),
      buildSPath = (\<lambda>c m. or_else c [] @ ''/'' @ or_else m []),
      parseSPath = split_slash,
      populate = (\<lambda>clone st rg. Inr (descriptor clone)),
      package_version = ''0.5.0''\<rparr>"

definition example_context :: "timing \<Rightarrow> leaf serverless" where
  "example_context when =
     \<lparr>projectPath = Some [''project''], classes_Function = Leaf [''project''] when\<rparr>"

definition no_project :: "leaf serverless" where
  "no_project = \<lparr>projectPath = None, classes_Function = Leaf [] Early\<rparr>"

definition users_auth :: identity where
  "users_auth = \<lparr>component = Some ''users'', module = Some ''auth''\<rparr>"

text \<open>
  An entity of the module \<^verbatim>\<open>users/auth\<close> with one child \<^verbatim>\<open>login\<close>, and the options of a
  deployment to the stage \<^verbatim>\<open>dev\<close>.
\<close>

definition auth_module :: "leaf module_entity" where
  "auth_module =
     \<lparr>config = \<lparr>cfg_component = Some ''users'', cfg_module = Some ''auth'',
                 sPath = Some ''users/auth'', fullPath = Some [''project'', ''users'', ''auth'']\<rparr>,
      descriptor =
        [(''name'', JStr ''auth''),
         (''version'', JStr ''0.0.1''),
         (''profile'', JStr ''aws-v0.5.0''),
         (''location'', JStr ''https://github.com/...''),
         (''author'', JStr []),
         (''description'', JStr ''A Serverless Module''),
         (''runtime'', JStr ''nodejs''),
         (''custom'', JObj []),
         (''cloudFormation'',
            JObj [(''resources'', JObj []), (''lambdaIamPolicyDocumentStatements'', JArr [])])],
      functions = [(''login'', \<lparr>leaf_path = [''project'', ''users'', ''auth'', ''login''],
                                leaf_doc = JObj [(''handler'', JStr ''login.run'')]\<rparr>)]\<rparr>"

definition dev :: options where
  "dev = \<lparr>stage = Some ''dev'', region = Some ''us-east-1''\<rparr>"

text \<open>
  Arguments for \<^verbatim>\<open>set\<close>: one with a literal under \<^verbatim>\<open>functions.login\<close>; one with a live
  instance there; one with a literal under the empty key; one with a live instance
  under \<^verbatim>\<open>functions.b\<close> followed by a literal under \<^verbatim>\<open>functions.a\<close>; one whose \<^verbatim>\<open>functions\<close>
  is \<^verbatim>\<open>null\<close>.
\<close>

definition login_literal :: "leaf document" where
  "login_literal =
     \<lparr>doc_S = None, doc_config = None,
      doc_functions = Entries [(''login'', Literal (JObj [(''handler'', JStr ''login.run'')]))],
      doc_fields = [(''author'', JStr ''ops'')]\<rparr>"



definition instance_first :: "leaf document" where
  "instance_first =
     \<lparr>doc_S = None, doc_config = None,
      doc_functions =
        Entries [(''b'', Instance \<lparr>leaf_path = [''project'', ''users'', ''auth'', ''b''],
                                     leaf_doc = JObj []\<rparr>),
                 (''a'', Literal (JObj [(''handler'', JStr ''a.run'')]))],
      doc_fields = []\<rparr>"

definition null_functions :: "leaf document" where
  "null_functions =
     \<lparr>doc_S = None, doc_config = None, doc_functions = Value ANull, doc_fields = []\<rparr>"


text \<open>A file system that holds the directory of the component \<^verbatim>\<open>users\<close> and nothing else.\<close>

definition component_only :: filesystem where
  "component_only = \<lparr>files = [], dirs = [[''project'', ''users'']]\<rparr>"

text \<open>The options of a deep save.\<close>

definition deeply :: "save_options option" where
  "deeply = Some \<lparr>deep = True\<rparr>"

text \<open>
  The entity a constructor call with the identity \<^verbatim>\<open>users/auth\<close> yields under the example
  context: \<open>auth_module\<close> without its child.
\<close>

definition fresh_auth :: "leaf module_entity" where
  "fresh_auth = auth_module\<lparr>functions := []\<rparr>"

subsection \<open>get on a store\<close>

text \<open>
  Whether the document \<^verbatim>\<open>get()\<close> returns shares an object with the live entity cannot be
  said of values, so \<^verbatim>\<open>get\<close> is embedded a second time, over a store of objects.  A value
  is a primitive or a reference; an object has a kind (what it is an instance of) and
  its own properties; the store is the list of all objects, an address is an index,
  and allocating appends.
\<close>

datatype val = VNull | VBool bool | VNum int | VStr string | VRef nat

datatype kind = PlainObject | ArrayObject | ModuleInstance | FunctionInstance

record object =
  kind :: kind
  props :: "(string \<times> val) list"

type_synonym store = "object list"

definition deref :: "store \<Rightarrow> nat \<Rightarrow> object option" where
  "deref st a = (if a < length st then Some (st ! a) else None)"

text \<open>The property \<^verbatim>\<open>o.k\<close> of the object at an address.\<close>

definition field :: "store \<Rightarrow> nat \<Rightarrow> string \<Rightarrow> val option" where
  "field st a k = (case deref st a of None \<Rightarrow> None | Some ob \<Rightarrow> map_of (props ob) k)"

text \<open>
  \<^verbatim>\<open>_.cloneDeep\<close>: a primitive is returned as it is; for a reference every property value
  is copied in turn and a new object of the same kind is allocated with the copies.  No
  existing object is written.  The first argument bounds the depth of the recursion
  (\<open>None\<close>: the bound was too small for this store, or a reference dangles).  lodash
  also remembers the objects it has copied, so that it copies an object reached twice
  once and terminates on a cyclic graph; here an object reached twice is copied twice,
  which yields the same document, and a cyclic graph has no copy.
\<close>

fun clone_all ::
  "(store \<Rightarrow> val \<Rightarrow> (store \<times> val) option) \<Rightarrow> store \<Rightarrow> (string \<times> val) list
     \<Rightarrow> (store \<times> (string \<times> val) list) option" where
  "clone_all f st [] = Some (st, [])"
| "clone_all f st ((k, v) # rest) =
     (case f st v of
        None \<Rightarrow> None
      | Some (st1, v') \<Rightarrow>
          (case clone_all f st1 rest of
             None \<Rightarrow> None
           | Some (st2, rest') \<Rightarrow> Some (st2, (k, v') # rest')))"

primrec cloneDeep :: "nat \<Rightarrow> store \<Rightarrow> val \<Rightarrow> (store \<times> val) option" where
  "cloneDeep 0 st v = (case v of VRef a \<Rightarrow> None | _ \<Rightarrow> Some (st, v))"
| "cloneDeep (Suc n) st v =
     (case v of
        VRef a \<Rightarrow>
          (case deref st a of
             None \<Rightarrow> None
           | Some ob \<Rightarrow>
               (case clone_all (cloneDeep n) st (props ob) of
                  None \<Rightarrow> None
                | Some (st', ps) \<Rightarrow> Some (st' @ [ob\<lparr>props := ps\<rparr>], VRef (length st'))))
      | _ \<Rightarrow> Some (st, v))"

text \<open>
  Modelled from the spec: \<^verbatim>\<open>SUtils.exportClassData\<close> is not in the source file.  Section
  4.4: it strips the internal-only fields (the context reference \<^verbatim>\<open>_S\<close> and the derived
  paths in \<^verbatim>\<open>_config\<close>) from the object it is given, in place, and returns that object.
\<close>

definition internal :: "string \<Rightarrow> bool" where
  "internal k = (k = ''_S'' \<or> k = ''_config'')"

definition exportClassData_s :: "store \<Rightarrow> val \<Rightarrow> (store \<times> val) option" where
  "exportClassData_s st v =
     (case v of
        VRef c \<Rightarrow>
          (case deref st c of
             None \<Rightarrow> None
           | Some ob \<Rightarrow>
               Some (st[c := ob\<lparr>props := filter (\<lambda>kv. \<not> internal (fst kv)) (props ob)\<rparr>], VRef c))
      | _ \<Rightarrow> Some (st, v))"

text \<open>
  Modelled from the spec: the child's own \<^verbatim>\<open>get()\<close> is not in the source file.  Section 2
  gives the Function Entity the module's lifecycle at leaf level, and section 4.4 has
  every level strip its internal fields: the deep copy of the child, exported.  A value
  that is no object has no method \<^verbatim>\<open>get\<close>.
\<close>

definition Function_get_s :: "nat \<Rightarrow> store \<Rightarrow> val \<Rightarrow> (store \<times> val) option" where
  "Function_get_s n st v =
     (case v of
        VRef a \<Rightarrow>
          (case cloneDeep n st (VRef a) of
             None \<Rightarrow> None
           | Some (st', clone) \<Rightarrow> exportClassData_s st' clone)
      | _ \<Rightarrow> None)"

text \<open>
  The loop of lines 161 to 163 over the properties of \<^verbatim>\<open>this.functions\<close>: the child's
  \<^verbatim>\<open>get()\<close> is assigned to the property of the object \<^verbatim>\<open>clone.functions\<close> (at \<open>target\<close>).
\<close>

fun get_children :: "nat \<Rightarrow> store \<Rightarrow> nat \<Rightarrow> (string \<times> val) list \<Rightarrow> store option" where
  "get_children n st target [] = Some st"
| "get_children n st target ((prop, v) # rest) =
     (case Function_get_s n st v of
        None \<Rightarrow> None
      | Some (st1, d) \<Rightarrow>
          (case deref st1 target of
             None \<Rightarrow> None
           | Some ob \<Rightarrow>
               get_children n (st1[target := ob\<lparr>props := AList.update prop d (props ob)\<rparr>])
                 target rest))"

text \<open>
  \<^verbatim>\<open>get()\<close>, lines 159 to 165, for the entity at the address \<open>this\<close>: the deep copy; the
  loop when \<^verbatim>\<open>this.functions\<close> is an object (a \<^verbatim>\<open>for in\<close> over \<^verbatim>\<open>undefined\<close>, \<^verbatim>\<open>null\<close>, a
  number, a boolean or the empty string runs no iteration; over a non-empty string it
  calls \<^verbatim>\<open>get\<close> on a character and throws); the export.  The result is the store after
  the call and the returned reference.
\<close>

definition get_s :: "nat \<Rightarrow> store \<Rightarrow> nat \<Rightarrow> (store \<times> val) option" where
  "get_s n st this =
     (case cloneDeep n st (VRef this) of
        None \<Rightarrow> None
      | Some (st1, clone) \<Rightarrow>
          (case field st1 this ''functions'' of
             Some (VRef fm) \<Rightarrow>
               (case (deref st1 fm, clone) of
                  (Some fobj, VRef c) \<Rightarrow>
                    (case field st1 c ''functions'' of
                       Some (VRef target) \<Rightarrow>
                         (case get_children n st1 target (props fobj) of
                            None \<Rightarrow> None
                          | Some st2 \<Rightarrow> exportClassData_s st2 clone)
                     | _ \<Rightarrow> None)
                | _ \<Rightarrow> None)
           | Some (VStr s) \<Rightarrow> if s = [] then exportClassData_s st1 clone else None
           | _ \<Rightarrow> exportClassData_s st1 clone))"

text \<open>
  The document a value denotes in a store (what \<^verbatim>\<open>JSON.stringify\<close> would print), read to
  a bounded depth.
\<close>

fun docs_of ::
  "(val \<Rightarrow> json option) \<Rightarrow> (string \<times> val) list \<Rightarrow> (string \<times> json) list option" where
  "docs_of f [] = Some []"
| "docs_of f ((k, v) # rest) =
     (case f v of
        None \<Rightarrow> None
      | Some j \<Rightarrow> (case docs_of f rest of None \<Rightarrow> None | Some js \<Rightarrow> Some ((k, j) # js)))"

primrec doc_of :: "nat \<Rightarrow> store \<Rightarrow> val \<Rightarrow> json option" where
  "doc_of 0 st v =
     (case v of
        VNull \<Rightarrow> Some JNull | VBool b \<Rightarrow> Some (JBool b) | VNum i \<Rightarrow> Some (JNum i)
      | VStr s \<Rightarrow> Some (JStr s) | VRef a \<Rightarrow> None)"
| "doc_of (Suc n) st v =
     (case v of
        VNull \<Rightarrow> Some JNull | VBool b \<Rightarrow> Some (JBool b) | VNum i \<Rightarrow> Some (JNum i)
      | VStr s \<Rightarrow> Some (JStr s)
      | VRef a \<Rightarrow>
          (case deref st a of
             None \<Rightarrow> None
           | Some ob \<Rightarrow>
               (case docs_of (doc_of n st) (props ob) of
                  None \<Rightarrow> None
                | Some js \<Rightarrow> Some (if kind ob = ArrayObject then JArr (map snd js) else JObj js))))"

text \<open>
  A store is closed when no reference in it dangles.  \<open>old_closed b\<close> says so of the
  first \<open>b\<close> objects of a store, the ones that existed when \<^verbatim>\<open>get\<close> was called.  A value
  is old when it refers to one of them, fresh when it refers to a later one;
  \<open>fresh_closed b\<close>: every later object refers to later objects only.
\<close>

definition old_val :: "nat \<Rightarrow> val \<Rightarrow> bool" where
  "old_val b v = (case v of VRef a \<Rightarrow> a < b | _ \<Rightarrow> True)"

definition old_props :: "nat \<Rightarrow> (string \<times> val) list \<Rightarrow> bool" where
  "old_props b ps = list_all (\<lambda>kv. old_val b (snd kv)) ps"

definition closed_store :: "store \<Rightarrow> bool" where
  "closed_store st = list_all (\<lambda>ob. old_props (length st) (props ob)) st"

definition old_closed :: "nat \<Rightarrow> store \<Rightarrow> bool" where
  "old_closed b st = (b \<le> length st \<and> closed_store (take b st))"

definition fresh_val :: "nat \<Rightarrow> store \<Rightarrow> val \<Rightarrow> bool" where
  "fresh_val b st v = (case v of VRef a \<Rightarrow> b \<le> a \<and> a < length st | _ \<Rightarrow> True)"

definition fresh_props :: "nat \<Rightarrow> store \<Rightarrow> (string \<times> val) list \<Rightarrow> bool" where
  "fresh_props b st ps = list_all (\<lambda>kv. fresh_val b st (snd kv)) ps"

definition fresh_closed :: "nat \<Rightarrow> store \<Rightarrow> bool" where
  "fresh_closed b st = list_all (\<lambda>ob. list_all (\<lambda>kv. fresh_val b st (snd kv)) (props ob)) (drop b st)"

text \<open>
  The children of the entity at \<open>this\<close> are objects: what \<^verbatim>\<open>this.functions\<close> holds when it
  is a map of live instances (or is absent).
\<close>

definition children_are_objects :: "store \<Rightarrow> nat \<Rightarrow> bool" where
  "children_are_objects st this =
     (case field st this ''functions'' of
        Some (VRef fm) \<Rightarrow>
          (case deref st fm of
             Some fobj \<Rightarrow> list_all (\<lambda>kv. case snd kv of VRef a \<Rightarrow> True | _ \<Rightarrow> False) (props fobj)
           | None \<Rightarrow> False)
      | Some (VStr s) \<Rightarrow> s = []
      | _ \<Rightarrow> True)"

text \<open>
  The shape of a module entity in the store: the entity, its \<^verbatim>\<open>functions\<close> map and the
  children in it are objects that are not arrays, and the entity and the map have each
  property once (\<^verbatim>\<open>functions\<close> may also be absent, or hold a value with no properties to
  enumerate).
\<close>

definition plain_child :: "store \<Rightarrow> val \<Rightarrow> bool" where
  "plain_child st v =
     (case v of VRef a \<Rightarrow> a < length st \<and> kind (st ! a) \<noteq> ArrayObject | _ \<Rightarrow> False)"

definition module_shape :: "store \<Rightarrow> nat \<Rightarrow> bool" where
  "module_shape st this =
     (case deref st this of
        None \<Rightarrow> False
      | Some tob \<Rightarrow>
          kind tob \<noteq> ArrayObject \<and> distinct (map fst (props tob)) \<and>
          (case map_of (props tob) ''functions'' of
             Some (VRef fm) \<Rightarrow>
               (case deref st fm of
                  None \<Rightarrow> False
                | Some fobj \<Rightarrow>
                    kind fobj \<noteq> ArrayObject \<and> distinct (map fst (props fobj)) \<and>
                    list_all (\<lambda>kv. plain_child st (snd kv)) (props fobj))
           | Some (VStr s) \<Rightarrow> s = []
           | _ \<Rightarrow> True))"

text \<open>
  The state of the entity as a document, for comparison with what \<^verbatim>\<open>get()\<close> returns: the
  document of the entity without its internal properties, in which every child under
  \<^verbatim>\<open>functions\<close> is the document of that child without its internal properties.
\<close>

definition strip_internal :: "json \<Rightarrow> json" where
  "strip_internal j =
     (case j of JObj kvs \<Rightarrow> JObj (filter (\<lambda>kv. \<not> internal (fst kv)) kvs) | _ \<Rightarrow> j)"

definition export_children :: "json \<Rightarrow> json" where
  "export_children j =
     (case j of JObj kvs \<Rightarrow> JObj (map (\<lambda>kv. (fst kv, strip_internal (snd kv))) kvs) | _ \<Rightarrow> j)"

definition snapshot :: "json \<Rightarrow> json" where
  "snapshot j =
     (case j of
        JObj kvs \<Rightarrow>
          JObj (filter (\<lambda>kv. \<not> internal (fst kv))
                  (map (\<lambda>kv. (fst kv, if fst kv = ''functions'' then export_children (snd kv)
                                       else snd kv)) kvs))
      | _ \<Rightarrow> j)"

text \<open>
  A set of addresses on which two stores agree and whose objects refer to objects of
  the set only: a value in the set denotes the same document in both stores.
\<close>

definition within :: "nat set \<Rightarrow> val \<Rightarrow> bool" where
  "within A v = (case v of VRef r \<Rightarrow> r \<in> A | _ \<Rightarrow> True)"

definition region_ok :: "nat set \<Rightarrow> store \<Rightarrow> store \<Rightarrow> bool" where
  "region_ok A s s' =
     (\<forall>a \<in> A. a < length s \<and> a < length s' \<and> s' ! a = s ! a
          \<and> (\<forall>kv \<in> set (props (s ! a)). within A (snd kv)))"

text \<open>
  What a caller can do to an object: \<^verbatim>\<open>o[k] = v\<close> (\<open>Some v\<close>) or \<^verbatim>\<open>delete o[k]\<close> (\<open>None\<close>) on
  the object at an address, and a sequence of such assignments.
\<close>

definition assignment :: "store \<Rightarrow> nat \<times> string \<times> val option \<Rightarrow> store" where
  "assignment st w =
     (case w of (a, k, x) \<Rightarrow>
        (case deref st a of
           None \<Rightarrow> st
         | Some ob \<Rightarrow>
             st[a := ob\<lparr>props := (case x of Some v \<Rightarrow> AList.update k v (props ob)
                                                | None \<Rightarrow> AList.delete k (props ob))\<rparr>]))"

definition assignments :: "store \<Rightarrow> (nat \<times> string \<times> val option) list \<Rightarrow> store" where
  "assignments st ws = foldl assignment st ws"

text \<open>
  Renumbering: \<open>ins b t st\<close> is the store \<open>st\<close> with the objects \<open>t\<close> put in after its first
  \<open>b\<close> objects, the later objects moved up and the references to them adjusted.  It
  relates a run of \<^verbatim>\<open>get\<close> to the run on a store that holds other objects in between.
\<close>

definition lift_val :: "nat \<Rightarrow> nat \<Rightarrow> val \<Rightarrow> val" where
  "lift_val b k v = (case v of VRef a \<Rightarrow> if b \<le> a then VRef (a + k) else VRef a | _ \<Rightarrow> v)"

definition lift_props :: "nat \<Rightarrow> nat \<Rightarrow> (string \<times> val) list \<Rightarrow> (string \<times> val) list" where
  "lift_props b k ps = map (\<lambda>kv. (fst kv, lift_val b k (snd kv))) ps"

definition lift_obj :: "nat \<Rightarrow> nat \<Rightarrow> object \<Rightarrow> object" where
  "lift_obj b k ob = ob\<lparr>props := lift_props b k (props ob)\<rparr>"

definition ins :: "nat \<Rightarrow> store \<Rightarrow> store \<Rightarrow> store" where
  "ins b t st = take b st @ t @ map (lift_obj b (length t)) (drop b st)"

text \<open>
  An example store: the context (0), the module's \<^verbatim>\<open>_config\<close> (1) and \<^verbatim>\<open>custom\<close> (2), the
  child's \<^verbatim>\<open>_config\<close> (3), the child \<^verbatim>\<open>login\<close> (4), the map \<^verbatim>\<open>functions\<close> (5) and the module
  entity (6); the document \<^verbatim>\<open>get()\<close> returns for it; the same entity as a value; and
  an assignment to the property \<^verbatim>\<open>name\<close> and the deletion of the property \<^verbatim>\<open>handler\<close> of
  every object allocated after these.
\<close>

definition example_store :: store where
  "example_store =
     [\<lparr>kind = PlainObject, props = [(''projectPath'', VStr ''project'')]\<rparr>,
      \<lparr>kind = PlainObject, props = [(''component'', VStr ''users''), (''module'', VStr ''auth'')]\<rparr>,
      \<lparr>kind = PlainObject, props = [(''memory'', VNum 128)]\<rparr>,
      \<lparr>kind = PlainObject, props = [(''function'', VStr ''login'')]\<rparr>,
      \<lparr>kind = FunctionInstance,
        props = [(''_S'', VRef 0), (''_config'', VRef 3), (''handler'', VStr ''login.run'')]\<rparr>,
      \<lparr>kind = PlainObject, props = [(''login'', VRef 4)]\<rparr>,
      \<lparr>kind = ModuleInstance,
        props = [(''_S'', VRef 0), (''_config'', VRef 1), (''name'', VStr ''auth''),
                 (''custom'', VRef 2), (''functions'', VRef 5)]\<rparr>]"

definition example_snapshot :: json where
  "example_snapshot =
     JObj [(''name'', JStr ''auth''), (''custom'', JObj [(''memory'', JNum 128)]),
           (''functions'', JObj [(''login'', JObj [(''handler'', JStr ''login.run'')])])]"

definition example_entity :: "leaf module_entity" where
  "example_entity =
     \<lparr>config = \<lparr>cfg_component = Some ''users'', cfg_module = Some ''auth'',
                 sPath = None, fullPath = None\<rparr>,
      descriptor = [(''name'', JStr ''auth''), (''custom'', JObj [(''memory'', JNum 128)])],
      functions = [(''login'', \<lparr>leaf_path = [''project'', ''users'', ''auth'', ''login''],
                                leaf_doc = JObj [(''handler'', JStr ''login.run'')]\<rparr>)]\<rparr>"

definition overwrite_all :: "(nat \<times> string \<times> val option) list" where
  "overwrite_all = map (\<lambda>a. (a, ''name'', Some (VStr ''changed''))) [7 ..< 30]
                   @ map (\<lambda>a. (a, ''handler'', None)) [7 ..< 30]"

section \<open>Properties\<close>

subsection \<open>Construction\<close>

lemma truthy_Some [simp]: "truthy (Some s) = (s \<noteq> [])"
  by (simp add: truthy_def)

lemma truthy_None [simp]: "\<not> truthy None"
  by (simp add: truthy_def)

lemma or_else_truthy: "truthy v \<Longrightarrow> v = Some s \<Longrightarrow> or_else v d = s"
  by (simp add: or_else_def)

lemma updateConfig_identity:
  "truthy (module i) \<Longrightarrow> cfg_module (updateConfig S U c (Some i)) = module i"
  by (simp add: updateConfig_def Let_def split: option.splits prod.splits)

text \<open>
  C5, as amended.  Construction fails exactly when the configuration does not supply
  both names, that is when the component name or the module name is missing or empty
  (line 24 tests \<^verbatim>\<open>!config.component || !config.module\<close>), and then with the
  ServerlessError of line 24; with both names supplied it succeeds.
\<close>

theorem constructor_fails_iff:
  "(ServerlessModule S U i = Inl (SError ''Missing required config.component or config.module''))
     = (\<not> (truthy (component i) \<and> truthy (module i)))
   \<and> (\<exists>e. ServerlessModule S U i = Inr e) = (truthy (component i) \<and> truthy (module i))
   \<and> isl (ServerlessModule S U i) = (\<not> (truthy (component i) \<and> truthy (module i)))"
  by (simp add: ServerlessModule_def Let_def)

theorem constructor_fails_iff_witness:
  "ServerlessModule (example_context Early) example_utils \<lparr>component = None, module = Some ''auth''\<rparr>
     = Inl (SError ''Missing required config.component or config.module'')
   \<and> (\<exists>e. ServerlessModule (example_context Early) example_utils users_auth = Inr e)"
  using constructor_fails_iff [of "example_context Early" example_utils
          "\<lparr>component = None, module = Some ''auth''\<rparr>"]
        constructor_fails_iff [of "example_context Early" example_utils users_auth]
  by (simp add: users_auth_def)

text \<open>
  C5, as stated, fails: a configuration with a component name and no module name does
  not lack both names, and its construction fails all the same.
\<close>

theorem constructor_one_name_counterexample:
  "truthy (component \<lparr>component = Some ''users'', module = None\<rparr>)
   \<and> isl (ServerlessModule (example_context Early) example_utils
            \<lparr>component = Some ''users'', module = None\<rparr>)"
  by (simp add: ServerlessModule_def)

text \<open>
  C6.  For every valid identity (both names supplied) the constructor succeeds, and
  the descriptor of the new entity is exactly the defaults of lines 32 to 44: version
  0.0.1, runtime nodejs, empty custom, empty cloudFormation fragments, the profile,
  location, author and description defaults, and no functions.  The name is
  \<^verbatim>\<open>_config.module || 'module' + generateShortId(6)\<close>, which for a valid identity is the
  module name: the generated identifier is the fallback for a missing name only.
\<close>

theorem constructor_defaults:
  assumes "truthy (component i)" and "module i = Some m" and "m \<noteq> []"
  shows "\<exists>e. ServerlessModule S U i = Inr e
     \<and> descriptor e =
         [(''name'', JStr (or_else (module i) (''module'' @ generateShortId U 6))),
          (''version'', JStr ''0.0.1''),
          (''profile'', JStr (''aws-v'' @ package_version U)),
          (''location'', JStr ''https://github.com/...''),
          (''author'', JStr []),
          (''description'', JStr ''A Serverless Module''),
          (''runtime'', JStr ''nodejs''),
          (''custom'', JObj []),
          (''cloudFormation'',
             JObj [(''resources'', JObj []), (''lambdaIamPolicyDocumentStatements'', JArr [])])]
     \<and> map_of (descriptor e) ''name'' = Some (JStr m)
     \<and> functions e = []"
proof -
  let ?c = "updateConfig S U empty_config (Some i)"
  from assms have valid: "truthy (component i)" "truthy (module i)"
    by simp_all
  have name: "cfg_module ?c = module i"
    using valid(2) by (rule updateConfig_identity)
  have made: "ServerlessModule S U i = Inr \<lparr>config = ?c, descriptor = default_fields U ?c, functions = []\<rparr>"
    using valid by (simp add: ServerlessModule_def Let_def)
  have fallback: "or_else (module i) (''module'' @ generateShortId U 6) = m"
    using valid(2) assms(2) by (rule or_else_truthy)
  show ?thesis
    unfolding made using name fallback by (simp add: default_fields_def)
qed

theorem constructor_defaults_witness:
  "\<exists>e. ServerlessModule (example_context Early) example_utils users_auth = Inr e
     \<and> map_of (descriptor e) ''name'' = Some (JStr ''auth'')
     \<and> map_of (descriptor e) ''version'' = Some (JStr ''0.0.1'')
     \<and> map_of (descriptor e) ''runtime'' = Some (JStr ''nodejs'')
     \<and> map_of (descriptor e) ''custom'' = Some (JObj [])
     \<and> functions e = []"
proof -
  have "truthy (component users_auth)" and "module users_auth = Some ''auth''" and "''auth'' \<noteq> []"
    by (simp_all add: users_auth_def)
  from constructor_defaults [OF this, of "example_context Early" example_utils]
  obtain e where "ServerlessModule (example_context Early) example_utils users_auth = Inr e"
    and "descriptor e =
         [(''name'', JStr (or_else (module users_auth) (''module'' @ generateShortId example_utils 6))),
          (''version'', JStr ''0.0.1''),
          (''profile'', JStr (''aws-v'' @ package_version example_utils)),
          (''location'', JStr ''https://github.com/...''),
          (''author'', JStr []),
          (''description'', JStr ''A Serverless Module''),
          (''runtime'', JStr ''nodejs''),
          (''custom'', JObj []),
          (''cloudFormation'',
             JObj [(''resources'', JObj []), (''lambdaIamPolicyDocumentStatements'', JArr [])])]"
    and "map_of (descriptor e) ''name'' = Some (JStr ''auth'')"
    and "functions e = []"
    by blast
  then show ?thesis by simp
qed

subsection \<open>Validation in getPopulated\<close>

text \<open>
  C8.  Whatever the entity and the options: \<^verbatim>\<open>getPopulated\<close> throws the ServerlessError
  of line 179 when \<^verbatim>\<open>options.stage\<close> or \<^verbatim>\<open>options.region\<close> is absent (or empty, or the
  options are absent); with both present it throws the ServerlessError of line 182
  when the context has no project path; with stage, region and project path present
  it calls the Populator on the clone with an emptied \<^verbatim>\<open>functions\<close> map (line 186: a
  falsy value that \<^verbatim>\<open>set\<close> left under \<^verbatim>\<open>functions\<close> is not emptied) and goes on from its
  answer.
\<close>

theorem getPopulated_validation:
  "(\<not> (truthy (stage (or_empty options)) \<and> truthy (region (or_empty options))) \<longrightarrow>
      getPopulated S U options e
        = Inl (SError ''Both \"stage\" and \"region\" params are required''))
   \<and> (truthy (stage (or_empty options)) \<and> truthy (region (or_empty options))
        \<and> \<not> path_truthy (projectPath S) \<longrightarrow>
      getPopulated S U options e
        = Inl (SError ''Module could not be populated because no project path has been set on Serverless instance''))
   \<and> (truthy (stage (or_empty options)) \<and> truthy (region (or_empty options))
        \<and> path_truthy (projectPath S) \<longrightarrow>
      getPopulated S U options e
        = (case populate U \<lparr>config = config e, descriptor = emptied (descriptor e),
                            functions = []\<rparr>
                  (stage (or_empty options)) (region (or_empty options)) of
             Inl err \<Rightarrow> Inl err
           | Inr data \<Rightarrow>
               (case populate_children (classes_Function S) (or_empty options) (functions e) [] of
                  Inl err \<Rightarrow> Inl err
                | Inr children \<Rightarrow> Inr (JObj (AList.update ''functions'' (JObj children) data)))))"
  by (simp add: getPopulated_def Let_def)

theorem getPopulated_validation_witness:
  "getPopulated (example_context Early) example_utils None auth_module
     = Inl (SError ''Both \"stage\" and \"region\" params are required'')
   \<and> getPopulated no_project example_utils (Some dev) auth_module
     = Inl (SError ''Module could not be populated because no project path has been set on Serverless instance'')
   \<and> getPopulated (example_context Early) example_utils (Some dev) auth_module
     = Inr (JObj (descriptor auth_module
                  @ [(''functions'', JObj [(''login'', JObj [(''handler'', JStr ''login.run'')])])]))"
  using getPopulated_validation [of None "example_context Early" example_utils auth_module]
        getPopulated_validation [of "Some dev" no_project example_utils auth_module]
        getPopulated_validation [of "Some dev" "example_context Early" example_utils auth_module]
  by (simp add: or_empty_def dev_def no_project_def example_context_def example_utils_def
        path_truthy_def auth_module_def Leaf_def emptied_def)

subsection \<open>set\<close>

lemma accepted_materialised:
  "accepted F c kv \<Longrightarrow> \<exists>kv'. materialised F c kv kv'"
  by (cases kv)
     (auto simp: accepted_def rejection_def materialised_def split: fval.splits sum.splits)

lemma accepted_literal: "accepted F c kv \<Longrightarrow> is_literal (snd kv)"
  by (auto simp: accepted_def rejection_def is_literal_def split: fval.splits)


text \<open>
  The loop stops at the first entry that is not accepted, with the rejection of that
  entry; the entries before it are replaced, that entry and the later ones are as they
  were.
\<close>

lemma set_loop_split:
  "\<exists>pre pre' rest. fs = pre @ rest \<and> list_all (accepted F c) pre
      \<and> list_all2 (materialised F c) pre pre'
      \<and> snd (set_loop F c fs) = pre' @ rest
      \<and> (case rest of
            [] \<Rightarrow> fst (set_loop F c fs) = None
          | kv # later \<Rightarrow> \<not> accepted F c kv \<and> fst (set_loop F c fs) = rejection F c kv)"
proof (induction fs)
  case Nil
  show ?case by (intro exI [of _ "[]"]) simp
next
  case (Cons kv fs)
  obtain key v where kv: "kv = (key, v)" by (cases kv)
  show ?case
  proof (cases "accepted F c kv")
    case False
    then have "rejection F c kv \<noteq> None" by (simp add: accepted_def)
    then have "set_loop F c (kv # fs) = (rejection F c kv, kv # fs)"
      by (auto simp: kv rejection_def split: fval.splits sum.splits)
    with False show ?thesis
      by (intro exI [of _ "[]"] exI [of _ "kv # fs"]) simp
  next
    case True
    then obtain d inst child where v: "v = Literal d"
      and new: "Function_new F (child_identity c key) = Inr inst"
      and st: "Function_set F inst d = Inr child"
      by (auto simp: kv accepted_def rejection_def split: fval.splits sum.splits)
    from Cons obtain pre pre' rest where ih: "fs = pre @ rest" "list_all (accepted F c) pre"
      "list_all2 (materialised F c) pre pre'" "snd (set_loop F c fs) = pre' @ rest"
      "(case rest of
          [] \<Rightarrow> fst (set_loop F c fs) = None
        | kv # later \<Rightarrow> \<not> accepted F c kv \<and> fst (set_loop F c fs) = rejection F c kv)"
      by blast
    have head: "materialised F c kv (key, Instance child)"
      using kv v new st by (simp add: materialised_def)
    have run: "set_loop F c (kv # fs)
               = (fst (set_loop F c fs), (key, Instance child) # snd (set_loop F c fs))"
      using kv v new st by (simp add: case_prod_unfold)
    have stop: "case rest of
              [] \<Rightarrow> fst (set_loop F c (kv # fs)) = None
            | x # later \<Rightarrow> \<not> accepted F c x
                \<and> fst (set_loop F c (kv # fs)) = rejection F c x"
    proof (cases rest)
      case Nil
      with ih(5) run show ?thesis by simp
    next
      case (Cons x later)
      with ih(5) have "\<not> accepted F c x" "fst (set_loop F c fs) = rejection F c x"
        by simp_all
      with run Cons show ?thesis by simp
    qed
    have "kv # fs = (kv # pre) @ rest" using ih(1) by simp
    moreover have "list_all (accepted F c) (kv # pre)" using True ih(2) by simp
    moreover have "list_all2 (materialised F c) (kv # pre) ((key, Instance child) # pre')"
      using head ih(3) by simp
    moreover have "snd (set_loop F c (kv # fs)) = ((key, Instance child) # pre') @ rest"
      using run ih(4) by simp
    ultimately show ?thesis using stop by blast
  qed
qed

lemma materialised_keys: "list_all2 (materialised F c) fs fs' \<Longrightarrow> map fst fs' = map fst fs"
  by (induction rule: list_all2_induct) (auto simp: materialised_def)

lemma materialised_instances:
  "list_all2 (materialised F c) fs fs' \<Longrightarrow> list_all (\<lambda>kv. \<not> is_literal (snd kv)) fs'"
  by (induction rule: list_all2_induct) (auto simp: materialised_def is_literal_def)




lemma set_m_entries_success:
  assumes "doc_functions data = Entries fs"
    and "set_loop (classes_Function S) (config e) fs = (None, fs')"
  shows "set_m S data e = merged S (data\<lparr>doc_functions := Entries fs'\<rparr>) e"
  using assms by (simp add: set_m_def)

lemma set_m_entries_failure:
  assumes "doc_functions data = Entries fs"
    and "set_loop (classes_Function S) (config e) fs = (Some err, fs')"
  shows "set_m S data e = thrown err S (data\<lparr>doc_functions := Entries fs'\<rparr>) e"
  using assms by (simp add: set_m_def)




lemma materialised_changes:
  "list_all2 (materialised F c) pre pre' \<Longrightarrow> pre \<noteq> [] \<Longrightarrow> pre' @ rest \<noteq> pre @ rest"
  by (cases pre; cases pre') (auto simp: materialised_def)

text \<open>
  C10, as amended.  \<^verbatim>\<open>set\<close> assigns to its own argument.  When \<^verbatim>\<open>data.functions\<close> is an
  object, the entries the loop gets past (literals that the child's constructor and
  \<^verbatim>\<open>set\<close> accept, up to the first entry that is not) are replaced in place, each by the
  live instance made for it, and the keys stay.  When the loop gets past every entry,
  \<^verbatim>\<open>set\<close> returns, no literal is left under \<^verbatim>\<open>functions\<close> in the caller's document, and
  \<^verbatim>\<open>this.functions\<close> holds the same instances.  Otherwise \<^verbatim>\<open>set\<close> throws at the first
  entry that is not accepted, and that entry and every later one are left as they
  were in the caller's document, literals among them.  When \<^verbatim>\<open>data.functions\<close> is no
  object the argument is left as it was.
\<close>

theorem set_replaces_literals_in_argument:
  "(\<forall>fs. doc_functions data = Entries fs \<longrightarrow>
      (\<exists>pre pre' rest. fs = pre @ rest
          \<and> list_all2 (materialised (classes_Function S) (config e)) pre pre'
          \<and> data_after (set_m S data e) = data\<lparr>doc_functions := Entries (pre' @ rest)\<rparr>
          \<and> map fst (pre' @ rest) = map fst fs
          \<and> (pre \<noteq> [] \<longrightarrow> data_after (set_m S data e) \<noteq> data)
          \<and> (case rest of
                [] \<Rightarrow> \<not> isl (returned (set_m S data e))
                    \<and> functions (this_after (set_m S data e)) = instances pre'
                    \<and> list_all (\<lambda>kv. \<not> is_literal (snd kv)) pre'
              | kv # later \<Rightarrow> isl (returned (set_m S data e))
                    \<and> \<not> accepted (classes_Function S) (config e) kv)))
   \<and> ((\<forall>fs. doc_functions data \<noteq> Entries fs) \<longrightarrow> data_after (set_m S data e) = data)"
proof -
  let ?F = "classes_Function S" and ?c = "config e"
  have object: "\<exists>pre pre' rest. fs = pre @ rest
          \<and> list_all2 (materialised ?F ?c) pre pre'
          \<and> data_after (set_m S data e) = data\<lparr>doc_functions := Entries (pre' @ rest)\<rparr>
          \<and> map fst (pre' @ rest) = map fst fs
          \<and> (pre \<noteq> [] \<longrightarrow> data_after (set_m S data e) \<noteq> data)
          \<and> (case rest of
                [] \<Rightarrow> \<not> isl (returned (set_m S data e))
                    \<and> functions (this_after (set_m S data e)) = instances pre'
                    \<and> list_all (\<lambda>kv. \<not> is_literal (snd kv)) pre'
              | kv # later \<Rightarrow> isl (returned (set_m S data e)) \<and> \<not> accepted ?F ?c kv)"
    if entries: "doc_functions data = Entries fs" for fs
  proof -
    from set_loop_split [of fs ?F ?c] obtain pre pre' rest
      where s: "fs = pre @ rest" "list_all2 (materialised ?F ?c) pre pre'"
        "snd (set_loop ?F ?c fs) = pre' @ rest"
        and stop: "(case rest of
            [] \<Rightarrow> fst (set_loop ?F ?c fs) = None
          | kv # later \<Rightarrow> \<not> accepted ?F ?c kv \<and> fst (set_loop ?F ?c fs) = rejection ?F ?c kv)"
      by blast
    have keys: "map fst (pre' @ rest) = map fst fs"
      using materialised_keys [OF s(2)] s(1) by simp
    have changed: "data\<lparr>doc_functions := Entries (pre' @ rest)\<rparr> \<noteq> data" if "pre \<noteq> []"
    proof
      assume "data\<lparr>doc_functions := Entries (pre' @ rest)\<rparr> = data"
      then have "doc_functions (data\<lparr>doc_functions := Entries (pre' @ rest)\<rparr>) = doc_functions data"
        by simp
      then have "pre' @ rest = pre @ rest" using entries s(1) by simp
      with materialised_changes [OF s(2) that, of rest] show False by simp
    qed
    have tail: "data_after (set_m S data e) = data\<lparr>doc_functions := Entries (pre' @ rest)\<rparr>
        \<and> (case rest of
              [] \<Rightarrow> \<not> isl (returned (set_m S data e))
                  \<and> functions (this_after (set_m S data e)) = instances pre'
                  \<and> list_all (\<lambda>kv. \<not> is_literal (snd kv)) pre'
            | kv # later \<Rightarrow> isl (returned (set_m S data e)) \<and> \<not> accepted ?F ?c kv)"
    proof (cases rest)
      case Nil
      with stop s(3) have run: "set_loop ?F ?c fs = (None, pre')"
        by (cases "set_loop ?F ?c fs") simp
      from set_m_entries_success [OF entries run]
      have r: "set_m S data e = merged S (data\<lparr>doc_functions := Entries pre'\<rparr>) e" .
      show ?thesis
        using materialised_instances [OF s(2)] r Nil
        by (simp add: merged_def extend_this_def)
    next
      case (Cons kv later)
      with stop have na: "\<not> accepted ?F ?c kv" and f: "fst (set_loop ?F ?c fs) = rejection ?F ?c kv"
        by simp_all
      from na obtain err where "rejection ?F ?c kv = Some err" by (auto simp: accepted_def)
      with f s(3) have run: "set_loop ?F ?c fs = (Some err, pre' @ rest)"
        by (cases "set_loop ?F ?c fs") simp
      from set_m_entries_failure [OF entries run]
      have r: "set_m S data e = thrown err S (data\<lparr>doc_functions := Entries (pre' @ rest)\<rparr>) e" .
      show ?thesis
        using r na Cons by (simp add: thrown_def)
    qed
    from tail changed have "pre \<noteq> [] \<longrightarrow> data_after (set_m S data e) \<noteq> data" by simp
    with s(1,2) keys tail show ?thesis by blast
  qed
  have other: "data_after (set_m S data e) = data" if "\<forall>fs. doc_functions data \<noteq> Entries fs"
    using that
    by (cases "doc_functions data")
       (auto simp: set_m_def merged_def thrown_def split: option.splits)
  show ?thesis
    using object other by blast
qed

theorem set_replaces_literals_in_argument_witness:
  "doc_functions (data_after (set_m (example_context Early) login_literal auth_module))
     = Entries [(''login'', Instance \<lparr>leaf_path = [''project'', ''users'', ''auth'', ''login''],
                                       leaf_doc = JObj [(''handler'', JStr ''login.run'')]\<rparr>)]
   \<and> functions (this_after (set_m (example_context Early) login_literal auth_module))
     = [(''login'', \<lparr>leaf_path = [''project'', ''users'', ''auth'', ''login''],
                     leaf_doc = JObj [(''handler'', JStr ''login.run'')]\<rparr>)]
   \<and> data_after (set_m (example_context Early) null_functions auth_module) = null_functions"
proof -
  let ?fs = "[(''login'', Literal (JObj [(''handler'', JStr ''login.run'')]))]"
  have lit: "doc_functions login_literal = Entries ?fs"
    by (simp add: login_literal_def)
  have ok: "accepted (classes_Function (example_context Early)) (config auth_module)
              (''login'', Literal (JObj [(''handler'', JStr ''login.run'')]))"
    by (simp add: accepted_def rejection_def example_context_def Leaf_def child_identity_def
          auth_module_def)
  have new: "Function_new (classes_Function (example_context Early))
               (child_identity (config auth_module) ''login'')
             = Inr \<lparr>leaf_path = [''project'', ''users'', ''auth'', ''login''], leaf_doc = JObj []\<rparr>"
    by (simp add: example_context_def Leaf_def child_identity_def auth_module_def or_else_def)
  have st: "Function_set (classes_Function (example_context Early)) l d = Inr (l\<lparr>leaf_doc := d\<rparr>)"
    for l d
    by (simp add: example_context_def Leaf_def)
  have none: "\<forall>fs. doc_functions null_functions \<noteq> Entries fs"
    by (simp add: null_functions_def)
  from set_replaces_literals_in_argument [of login_literal "example_context Early" auth_module] lit
  obtain pre pre' rest where s: "?fs = pre @ rest"
    "list_all2 (materialised (classes_Function (example_context Early)) (config auth_module)) pre pre'"
    "data_after (set_m (example_context Early) login_literal auth_module)
       = login_literal\<lparr>doc_functions := Entries (pre' @ rest)\<rparr>"
    "(case rest of
        [] \<Rightarrow> \<not> isl (returned (set_m (example_context Early) login_literal auth_module))
            \<and> functions (this_after (set_m (example_context Early) login_literal auth_module))
                = instances pre'
            \<and> list_all (\<lambda>kv. \<not> is_literal (snd kv)) pre'
      | kv # later \<Rightarrow> isl (returned (set_m (example_context Early) login_literal auth_module))
            \<and> \<not> accepted (classes_Function (example_context Early)) (config auth_module) kv)"
    by blast
  have "rest = []"
  proof (cases rest)
    case (Cons kv later)
    with s(1) have "kv = (''login'', Literal (JObj [(''handler'', JStr ''login.run'')]))"
      by (cases pre) auto
    with s(4) Cons ok show ?thesis by simp
  qed simp
  with s(1) have pre: "pre = ?fs" by simp
  with s(2) new st have pre': "pre' = [(''login'', Instance \<lparr>leaf_path = [''project'', ''users'', ''auth'', ''login''],
                                       leaf_doc = JObj [(''handler'', JStr ''login.run'')]\<rparr>)]"
    by (auto simp: list_all2_Cons1 materialised_def)
  from s(3,4) \<open>rest = []\<close> pre'
  have "doc_functions (data_after (set_m (example_context Early) login_literal auth_module))
     = Entries [(''login'', Instance \<lparr>leaf_path = [''project'', ''users'', ''auth'', ''login''],
                                       leaf_doc = JObj [(''handler'', JStr ''login.run'')]\<rparr>)]
   \<and> functions (this_after (set_m (example_context Early) login_literal auth_module))
     = [(''login'', \<lparr>leaf_path = [''project'', ''users'', ''auth'', ''login''],
                     leaf_doc = JObj [(''handler'', JStr ''login.run'')]\<rparr>)]"
    by simp
  moreover from set_replaces_literals_in_argument [of null_functions "example_context Early" auth_module]
    none
  have "data_after (set_m (example_context Early) null_functions auth_module) = null_functions"
    by blast
  ultimately show ?thesis by blast
qed

text \<open>
  C10, as stated, fails: the literal under \<^verbatim>\<open>functions.a\<close> is enumerated after the live
  instance under \<^verbatim>\<open>functions.b\<close>; line 138 throws at the instance, and the literal is
  still in the caller's document after the call.
\<close>

theorem set_literal_after_instance_counterexample:
  "doc_functions instance_first
     = Entries [(''b'', Instance \<lparr>leaf_path = [''project'', ''users'', ''auth'', ''b''],
                                   leaf_doc = JObj []\<rparr>),
                (''a'', Literal (JObj [(''handler'', JStr ''a.run'')]))]
   \<and> doc_functions (data_after (set_m (example_context Early) instance_first auth_module))
     = Entries [(''b'', Instance \<lparr>leaf_path = [''project'', ''users'', ''auth'', ''b''],
                                   leaf_doc = JObj []\<rparr>),
                (''a'', Literal (JObj [(''handler'', JStr ''a.run'')]))]
   \<and> returned (set_m (example_context Early) instance_first auth_module)
     = Inl (SError ''You cannot pass subclasses into the set method, only object literals'')"
  by (simp add: instance_first_def set_m_def thrown_def)

subsection \<open>load\<close>

text \<open>
  An entity constructed under a context with a project path has an absolute location
  (when the canonical path is not empty).
\<close>

lemma constructor_fullPath:
  assumes "ServerlessModule S U i = Inr e" and "path_truthy (projectPath S)"
    and "buildSPath U (component i) (module i) \<noteq> []"
  shows "\<exists>p. fullPath (config e) = Some p"
  using assms
  by (auto simp: ServerlessModule_def updateConfig_def Let_def path_truthy_def
           split: if_splits option.splits prod.splits)

text \<open>
  C7.  \<^verbatim>\<open>load\<close> rejects with the ServerlessError of line 87 (no project path has been
  set) whenever the context has no project path, and with the ServerlessError of line
  91 (the module does not exist in the project) whenever the project path is set and
  no \<^verbatim>\<open>s-module.json\<close> exists at the entity's absolute location \<^verbatim>\<open>_config.fullPath\<close>.  In
  these and in every other failure \<^verbatim>\<open>this\<close> is left as it was: the only assignment to it
  is the merge of line 120.
\<close>

theorem load_precondition_failures:
  "(\<not> path_truthy (projectPath S) \<longrightarrow>
      load S fs e
        = (Inl (SError ''Module could not be loaded because no project path has been set on Serverless instance''), e))
   \<and> (path_truthy (projectPath S) \<and> fullPath (config e) = Some p
        \<and> \<not> fileExistsSync fs (p @ [''s-module.json'']) \<longrightarrow>
      load S fs e
        = (Inl (SError (''Module could not be loaded because it does not exist in your project: ''
                         @ string_of (sPath (config e)))), e))
   \<and> (isl (fst (load S fs e)) \<longrightarrow> snd (load S fs e) = e)"
  by (simp add: load_def Let_def split: option.splits sum.splits)

theorem load_precondition_failures_witness:
  "load no_project component_only auth_module
     = (Inl (SError ''Module could not be loaded because no project path has been set on Serverless instance''),
        auth_module)
   \<and> load (example_context Early) component_only auth_module
     = (Inl (SError ''Module could not be loaded because it does not exist in your project: users/auth''),
        auth_module)"
proof -
  have "\<not> path_truthy (projectPath no_project)"
    by (simp add: no_project_def path_truthy_def)
  moreover have "path_truthy (projectPath (example_context Early))
     \<and> fullPath (config auth_module) = Some [''project'', ''users'', ''auth'']
     \<and> \<not> fileExistsSync component_only ([''project'', ''users'', ''auth''] @ [''s-module.json''])"
    by (simp add: example_context_def path_truthy_def auth_module_def fileExistsSync_def
          is_file_def component_only_def)
  moreover have "string_of (sPath (config auth_module)) = ''users/auth''"
    by (simp add: string_of_def auth_module_def)
  ultimately show ?thesis
    using load_precondition_failures [where S = no_project and fs = component_only
             and e = auth_module]
          load_precondition_failures [where S = "example_context Early" and fs = component_only
             and e = auth_module and p = "[''project'', ''users'', ''auth'']"]
    by simp
qed

subsection \<open>save\<close>

lemma get_cases:
  "get S e =
     (case map_of (descriptor e) ''functions'' of
        Some v \<Rightarrow> JObj (descriptor e)
      | None \<Rightarrow>
          JObj (AList.update ''functions''
                  (JObj (map (\<lambda>pf. (fst pf, Function_get (classes_Function S) (snd pf)))
                           (functions e)))
                  (descriptor e)))"
  by (simp add: get_def exportClassData_def split: option.splits)

lemma delete_absent: "map_of kvs k = None \<Longrightarrow> AList.delete k kvs = kvs"
  by (induction kvs) (auto split: if_splits)

lemma strip_functions_get: "strip_functions (get S e) = JObj (emptied (descriptor e))"
proof (cases "map_of (descriptor e) ''functions''")
  case None
  then show ?thesis
    by (simp add: get_cases strip_functions_def emptied_def update_conv' truthy_json_def
          delete_update_same delete_absent)
next
  case (Some v)
  then show ?thesis
    by (simp add: get_cases strip_functions_def emptied_def)
qed


lemma map_of_writeFile: "map_of (files (writeFile fs p c)) p = Some c"
  by (simp add: writeFile_def update_Some_unfold)





subsection \<open>save followed by load\<close>

lemma assign_map_of:
  "distinct (map fst src) \<Longrightarrow> map_of (assign dst src) = map_of dst ++ map_of src"
proof (induction src arbitrary: dst)
  case Nil
  then show ?case by (simp add: assign_def)
next
  case (Cons kv src)
  obtain k v where kv: "kv = (k, v)" by (cases kv)
  from Cons.prems kv have fresh: "k \<notin> fst ` set src" and rest: "distinct (map fst src)"
    by auto
  have "map_of (assign dst (kv # src)) = map_of (assign (AList.update k v dst) src)"
    using kv by (simp add: assign_def)
  also have "\<dots> = map_of (AList.update k v dst) ++ map_of src"
    using rest by (rule Cons.IH)
  also have "\<dots> = (map_of dst)(k \<mapsto> v) ++ map_of src"
    by (simp add: update_conv')
  also have "\<dots> = map_of dst ++ map_of (kv # src)"
  proof (rule ext)
    fix x
    from fresh have "map_of src k = None"
      by (simp add: map_of_eq_None_iff)
    then show "((map_of dst)(k \<mapsto> v) ++ map_of src) x = (map_of dst ++ map_of (kv # src)) x"
      using kv by (cases "x = k") (simp_all add: map_add_def split: option.splits)
  qed
  finally show ?case .
qed

lemma assign_keys: "fst ` set (assign dst src) = fst ` set dst \<union> fst ` set src"
proof (induction src arbitrary: dst)
  case Nil
  then show ?case by (simp add: assign_def)
next
  case (Cons kv src)
  have "assign dst (kv # src) = assign (AList.update (fst kv) (snd kv) dst) src"
    by (simp add: assign_def)
  then show ?case
    using Cons.IH [of "AList.update (fst kv) (snd kv) dst"] by (auto simp: dom_update)
qed

lemma assign_distinct: "distinct (map fst dst) \<Longrightarrow> distinct (map fst (assign dst src))"
proof (induction src arbitrary: dst)
  case Nil
  then show ?case by (simp add: assign_def)
next
  case (Cons kv src)
  have "assign dst (kv # src) = assign (AList.update (fst kv) (snd kv) dst) src"
    by (simp add: assign_def)
  then show ?case
    using Cons.IH [of "AList.update (fst kv) (snd kv) dst"] Cons.prems
    by (simp add: distinct_update)
qed

lemma constructor_descriptor_distinct:
  "ServerlessModule S U i = Inr e \<Longrightarrow> distinct (map fst (descriptor e))"
  by (auto simp: ServerlessModule_def default_fields_def Let_def split: if_splits)

lemma delete_keys: "fst ` set (AList.delete k kvs) = fst ` set kvs - {k}"
  by (induction kvs) auto

lemma extend_this_keeps_keys:
  "fst ` set (descriptor e) - {''functions''} \<subseteq> fst ` set (descriptor (extend_this e data))
   \<and> (distinct (map fst (descriptor e))
        \<longrightarrow> distinct (map fst (descriptor (extend_this e data))))"
  by (cases "doc_functions data")
     (auto simp: extend_this_def assign_keys assign_distinct delete_keys dom_update
                 distinct_update distinct_delete)

lemma set_m_keeps_keys:
  "fst ` set (descriptor e) - {''functions''}
     \<subseteq> fst ` set (descriptor (this_after (set_m S data e)))
   \<and> (distinct (map fst (descriptor e))
        \<longrightarrow> distinct (map fst (descriptor (this_after (set_m S data e)))))"
proof -
  have "this_after (set_m S data e) = e \<or> (\<exists>d. this_after (set_m S data e) = extend_this e d)"
    by (cases "doc_functions data")
       (auto simp: set_m_def merged_def thrown_def split: option.splits prod.splits)
  then show ?thesis
  proof
    assume "this_after (set_m S data e) = e"
    then show ?thesis by auto
  next
    assume "\<exists>d. this_after (set_m S data e) = extend_this e d"
    then obtain d where "this_after (set_m S data e) = extend_this e d" by blast
    with extend_this_keeps_keys [of e d] show ?thesis by simp
  qed
qed

lemma load_keeps_keys:
  "fst ` set (descriptor e) - {''functions''} \<subseteq> fst ` set (descriptor (snd (load S fs e)))
   \<and> (distinct (map fst (descriptor e))
        \<longrightarrow> distinct (map fst (descriptor (snd (load S fs e)))))"
  by (auto simp: load_def Let_def assign_keys assign_distinct delete_keys distinct_delete
           split: option.splits sum.splits)

lemma load_children_names:
  "load_children F fs c p names acc = Inr children
   \<Longrightarrow> fst ` set children
       = fst ` set acc \<union> {f \<in> set names. fileExistsSync fs (p @ [f, ''s-function.json''])}"
proof (induction names arbitrary: acc)
  case Nil
  then show ?case by auto
next
  case (Cons f names)
  show ?case
  proof (cases "fileExistsSync fs (p @ [f, ''s-function.json''])")
    case False
    with Cons show ?thesis by auto
  next
    case True
    with Cons.prems obtain func inst
      where "Function_new F (child_identity c f) = Inr func"
        and "Function_load F fs func = Inr inst"
        and "load_children F fs c p names (AList.update f inst acc) = Inr children"
      by (auto split: sum.splits)
    from Cons.IH [OF this(3)] True show ?thesis
      by (auto simp: dom_update)
  qed
qed

lemma load_children_failure:
  "load_children F fs c p names acc = Inl err
   \<Longrightarrow> \<exists>f \<in> set names. fileExistsSync fs (p @ [f, ''s-function.json''])
         \<and> (Function_new F (child_identity c f) = Inl err
            \<or> (\<exists>func. Function_new F (child_identity c f) = Inr func
                   \<and> Function_load F fs func = Inl err))"
  by (induction names arbitrary: acc) (auto split: sum.splits if_splits)

lemma is_file_is_dir: "is_file fs (p @ [x]) \<Longrightarrow> is_dir fs p"
proof -
  assume "is_file fs (p @ [x])"
  then have "p @ [x] \<in> set (entries fs)"
    by (auto simp: is_file_def entries_def map_of_eq_None_iff)
  then show ?thesis
    by (auto simp: is_dir_def list_ex_iff intro!: bexI [of _ "p @ [x]"])
qed

lemma save_resolved:
  assumes "path_truthy (projectPath S)" and "fullPath (config e) = Some p"
    and "save S options fs e = (Inr x, fs1)"
  shows "x = e \<and> map_of (files fs1) (p @ [''s-module.json''])
                  = Some (JsonText (JObj (emptied (descriptor e))))"
  using assms
  by (auto simp: save_def map_of_writeFile strip_functions_get
           split: sum.splits prod.splits option.splits if_splits)

lemma delete_emptied: "AList.delete ''functions'' (emptied d) = AList.delete ''functions'' d"
  by (simp add: emptied_def delete_idem split: option.splits)


lemma load_after_save:
  assumes root: "path_truthy (projectPath S)"
    and loc: "fullPath (config fresh) = Some p"
    and descr: "map_of (files fs1) (p @ [''s-module.json'']) = Some (JsonText (JObj (emptied d)))"
  shows "\<exists>names. readdirSync fs1 p = Inr names
     \<and> load S fs1 fresh
        = (case load_children (classes_Function S) fs1 (config fresh) p names [] of
             Inl err \<Rightarrow> (Inl err, fresh)
           | Inr children \<Rightarrow>
               (Inr (fresh\<lparr>descriptor := AList.delete ''functions''
                                            (assign (descriptor fresh) (AList.delete ''functions'' d)),
                           functions := children\<rparr>),
                fresh\<lparr>descriptor := AList.delete ''functions''
                                       (assign (descriptor fresh) (AList.delete ''functions'' d)),
                      functions := children\<rparr>))"
proof -
  have present: "fileExistsSync fs1 (p @ [''s-module.json''])"
    using descr by (simp add: fileExistsSync_def is_file_def)
  then have "is_dir fs1 p"
    by (simp add: fileExistsSync_def is_file_is_dir)
  then obtain names where names: "readdirSync fs1 p = Inr names"
    by (simp add: readdirSync_def)
  have parsed: "readAndParseJsonSync fs1 (p @ [''s-module.json'']) = Inr (JObj (emptied d))"
    using descr by (simp add: readAndParseJsonSync_def)
  have props: "own_properties (JObj (emptied d)) = Inr (AList.delete ''functions'' d)"
    by (simp add: own_properties_def delete_emptied)
  show ?thesis
    using root loc present names parsed props
    by (simp add: load_def Let_def split: sum.splits)
qed

text \<open>
  C2, as amended.  Let an entity with a project path set be saved, and let a fresh
  entity of an equivalent identity (same \<^verbatim>\<open>_config\<close>, constructed under the same context)
  be loaded from the file system the save left.  The entity's descriptor has distinct
  keys and still has the keys the constructor gave it (\<open>set_m_keeps_keys\<close>,
  \<open>load_keeps_keys\<close>: no method removes one of them).  Then the load fails only if the
  construction or the load of a child found on disk fails; otherwise it yields an
  entity with the same identity and the same descriptor fields (\<^verbatim>\<open>functions\<close> apart),
  whose child names are exactly the entries of the module's directory that hold an
  \<^verbatim>\<open>s-function.json\<close>.  These are the original's child names only when each child's
  document is there and no other is: \<^verbatim>\<open>save\<close> writes the children's documents only
  with the option \<^verbatim>\<open>deep\<close>.
\<close>

theorem save_then_load:
  assumes root: "path_truthy (projectPath S)"
    and fresh: "ServerlessModule S U i = Inr fresh"
    and same: "config e = config fresh"
    and loc: "fullPath (config e) = Some p"
    and keys: "distinct (map fst (descriptor e))"
    and kept: "fst ` set (descriptor fresh) \<subseteq> fst ` set (descriptor e)"
    and saved: "save S options fs e = (Inr x, fs1)"
  shows "\<exists>names. readdirSync fs1 p = Inr names
     \<and> (case fst (load S fs1 fresh) of
           Inl err \<Rightarrow>
             (\<exists>f \<in> set names. fileExistsSync fs1 (p @ [f, ''s-function.json''])
                \<and> (Function_new (classes_Function S) (child_identity (config fresh) f) = Inl err
                   \<or> (\<exists>func. Function_new (classes_Function S) (child_identity (config fresh) f)
                                = Inr func
                          \<and> Function_load (classes_Function S) fs1 func = Inl err)))
         | Inr loaded \<Rightarrow>
             snd (load S fs1 fresh) = loaded
             \<and> config loaded = config e
             \<and> (\<forall>k. k \<noteq> ''functions'' \<longrightarrow> map_of (descriptor loaded) k = map_of (descriptor e) k)
             \<and> set (child_names loaded)
                 = {f \<in> set names. fileExistsSync fs1 (p @ [f, ''s-function.json''])})"
proof -
  let ?d = "AList.delete ''functions'' (descriptor e)"
  from save_resolved [OF root loc saved]
  have descr: "map_of (files fs1) (p @ [''s-module.json''])
                 = Some (JsonText (JObj (emptied (descriptor e))))"
    by simp
  from loc same have loc': "fullPath (config fresh) = Some p"
    by simp
  from load_after_save [OF root loc' descr] obtain names
    where names: "readdirSync fs1 p = Inr names"
      and load: "load S fs1 fresh
        = (case load_children (classes_Function S) fs1 (config fresh) p names [] of
             Inl err \<Rightarrow> (Inl err, fresh)
           | Inr children \<Rightarrow>
               (Inr (fresh\<lparr>descriptor := AList.delete ''functions'' (assign (descriptor fresh) ?d),
                           functions := children\<rparr>),
                fresh\<lparr>descriptor := AList.delete ''functions'' (assign (descriptor fresh) ?d),
                      functions := children\<rparr>))"
    by blast
  have fields: "map_of (AList.delete ''functions'' (assign (descriptor fresh) ?d)) k
                  = map_of (descriptor e) k"
    if "k \<noteq> ''functions''" for k
  proof -
    have "distinct (map fst ?d)"
      using keys by (rule distinct_delete)
    then have "map_of (assign (descriptor fresh) ?d) k = (map_of (descriptor fresh) ++ map_of ?d) k"
      by (simp add: assign_map_of)
    moreover have "map_of (AList.delete ''functions'' (assign (descriptor fresh) ?d)) k
                     = map_of (assign (descriptor fresh) ?d) k"
      using that by (simp add: delete_conv')
    moreover have "map_of ?d k = map_of (descriptor e) k"
      using that by simp
    moreover have "map_of (descriptor fresh) k = None" if "map_of (descriptor e) k = None"
      using that kept by (auto simp: map_of_eq_None_iff)
    ultimately show ?thesis
      by (cases "map_of (descriptor e) k") (simp_all add: map_add_def)
  qed
  show ?thesis
  proof (cases "load_children (classes_Function S) fs1 (config fresh) p names []")
    case (Inl err)
    from load_children_failure [OF this] load Inl names show ?thesis
      by simp
  next
    case (Inr children)
    from load_children_names [OF this]
    have "set (map fst children)
            = {f \<in> set names. fileExistsSync fs1 (p @ [f, ''s-function.json''])}"
      by simp
    with load Inr names fields same show ?thesis
      by (simp add: child_names_def)
  qed
qed

text \<open>
  C2, as stated, fails: the entity \<^verbatim>\<open>users/auth\<close> has the child \<^verbatim>\<open>login\<close>; after \<^verbatim>\<open>save()\<close>
  without options on a project that holds only the component's directory, a fresh
  entity of the same identity loads with no child at all.
\<close>

theorem save_then_load_child_names_counterexample:
  "ServerlessModule (example_context Early) example_utils users_auth = Inr fresh_auth
   \<and> config auth_module = config fresh_auth
   \<and> fst (save (example_context Early) None component_only auth_module) = Inr auth_module
   \<and> map_sum id child_names
        (fst (load (example_context Early)
                (snd (save (example_context Early) None component_only auth_module)) fresh_auth))
       = Inr []
   \<and> child_names auth_module = [''login'']"
  by code_simp

theorem save_then_load_witness:
  "fst (load (example_context Early)
          (snd (save (example_context Early) deeply component_only auth_module)) fresh_auth)
     = Inr auth_module
   \<and> set (child_names auth_module)
       = {f \<in> set [''s-templates.json'', ''login'', ''s-module.json''].
            fileExistsSync (snd (save (example_context Early) deeply component_only auth_module))
              ([''project'', ''users'', ''auth''] @ [f, ''s-function.json''])}
   \<and> child_names auth_module = [''login'']"
proof -
  let ?S = "example_context Early"
  let ?fs1 = "snd (save ?S deeply component_only auth_module)"
  have root: "path_truthy (projectPath ?S)"
    by code_simp
  have fresh: "ServerlessModule ?S example_utils users_auth = Inr fresh_auth"
    by code_simp
  have same: "config auth_module = config fresh_auth"
    by code_simp
  have loc: "fullPath (config auth_module) = Some [''project'', ''users'', ''auth'']"
    by code_simp
  have keys: "distinct (map fst (descriptor auth_module))"
    by code_simp
  have kept: "fst ` set (descriptor fresh_auth) \<subseteq> fst ` set (descriptor auth_module)"
    by (simp add: fresh_auth_def)
  have "fst (save ?S deeply component_only auth_module) = Inr auth_module"
    by code_simp
  then have saved: "save ?S deeply component_only auth_module = (Inr auth_module, ?fs1)"
    by (simp add: prod_eq_iff)
  have loaded: "fst (load ?S ?fs1 fresh_auth) = Inr auth_module"
    by code_simp
  have listing: "readdirSync ?fs1 [''project'', ''users'', ''auth'']
                   = Inr [''s-templates.json'', ''login'', ''s-module.json'']"
    by code_simp
  have names: "child_names auth_module = [''login'']"
    by code_simp
  from save_then_load [OF root fresh same loc keys kept saved] loaded listing names
  show ?thesis
    by simp
qed

subsection \<open>The children in getPopulated\<close>

lemma populate_children_keys:
  "populate_children F opts cs acc = Inr out
   \<Longrightarrow> fst ` set out
       = fst ` set acc
         \<union> {k. \<exists>f p d. (k, f) \<in> set cs \<and> Function_getPopulated F f opts = Inr p
                 \<and> settles p = Early \<and> outcome p = Inr d}"
proof (induction cs arbitrary: acc)
  case Nil
  then show ?case by simp
next
  case (Cons c cs)
  obtain k f where c: "c = (k, f)" by (cases c)
  from Cons.prems c obtain p where p: "Function_getPopulated F f opts = Inr p"
    by (cases "Function_getPopulated F f opts") auto
  show ?case
  proof (cases "settles p = Early \<and> \<not> isl (outcome p)")
    case True
    then obtain d where d: "settles p = Early" "outcome p = Inr d"
      by (cases "outcome p") auto
    with Cons.prems c p have "populate_children F opts cs (AList.update k d acc) = Inr out"
      by simp
    from Cons.IH [OF this] c p d show ?thesis
      by (auto simp: dom_update)
  next
    case False
    with Cons.prems c p have "populate_children F opts cs acc = Inr out"
      by (cases "settles p"; cases "outcome p") auto
    from Cons.IH [OF this] c p False show ?thesis
      by auto
  qed
qed

text \<open>
  C1.  The \<^verbatim>\<open>functions\<close> map of the value \<^verbatim>\<open>getPopulated\<close> resolves with is meant
  to hold the populated form of every child.  The code does not wait for the
  children (the callback of lines 189 to 198 returns nothing, where \<^verbatim>\<open>load\<close> and
  \<^verbatim>\<open>save\<close> return the child's promise to \<^verbatim>\<open>.each\<close>): whenever it resolves, the map holds
  exactly the children whose own population was fulfilled early, so a child that
  settles late is missing.
\<close>

theorem getPopulated_children_not_joined:
  assumes "getPopulated S U options e = Inr doc"
  shows "\<exists>data children. doc = JObj (AList.update ''functions'' (JObj children) data)
     \<and> fst ` set children
         = {k. \<exists>f p d. (k, f) \<in> set (functions e)
               \<and> Function_getPopulated (classes_Function S) f (or_empty options) = Inr p
               \<and> settles p = Early \<and> outcome p = Inr d}"
proof -
  from assms obtain data children
    where "populate_children (classes_Function S) (or_empty options) (functions e) [] = Inr children"
      and "doc = JObj (AList.update ''functions'' (JObj children) data)"
    by (auto simp: getPopulated_def Let_def split: if_splits sum.splits)
  with populate_children_keys [OF this(1)] show ?thesis
    by auto
qed

theorem getPopulated_children_not_joined_witness:
  "getPopulated (example_context Late) example_utils (Some dev) auth_module
     = Inr (JObj (descriptor auth_module @ [(''functions'', JObj [])]))
   \<and> child_names auth_module = [''login'']
   \<and> Function_getPopulated (classes_Function (example_context Late))
        \<lparr>leaf_path = [''project'', ''users'', ''auth'', ''login''],
         leaf_doc = JObj [(''handler'', JStr ''login.run'')]\<rparr> dev
       = Inr \<lparr>settles = Late, outcome = Inr (JObj [(''handler'', JStr ''login.run'')])\<rparr>"
proof -
  have resolved: "getPopulated (example_context Late) example_utils (Some dev) auth_module
     = Inr (JObj (descriptor auth_module @ [(''functions'', JObj [])]))"
    by code_simp
  from getPopulated_children_not_joined [OF resolved]
  have "\<exists>data children. JObj (descriptor auth_module @ [(''functions'', JObj [])])
          = JObj (AList.update ''functions'' (JObj children) data)"
    by blast
  moreover have "child_names auth_module = [''login'']"
    by code_simp
  moreover have "Function_getPopulated (classes_Function (example_context Late))
        \<lparr>leaf_path = [''project'', ''users'', ''auth'', ''login''],
         leaf_doc = JObj [(''handler'', JStr ''login.run'')]\<rparr> dev
       = Inr \<lparr>settles = Late, outcome = Inr (JObj [(''handler'', JStr ''login.run'')])\<rparr>"
    by code_simp
  ultimately show ?thesis
    using resolved by simp
qed

subsection \<open>get on a store: copies extend the store\<close>

lemma deref_append: "deref st a = Some ob \<Longrightarrow> deref (st @ new) a = Some ob"
  by (auto simp: deref_def nth_append split: if_splits)

lemma clone_all_prefix:
  assumes "\<forall>s v s' v'. f s v = Some (s', v') \<longrightarrow> (\<exists>new. s' = s @ new)"
  shows "clone_all f st ps = Some (st', ps') \<Longrightarrow> \<exists>new. st' = st @ new"
proof (induction ps arbitrary: st st' ps')
  case Nil
  then show ?case by simp
next
  case (Cons kv ps)
  obtain k v where kv: "kv = (k, v)" by (cases kv)
  from Cons.prems kv obtain st1 v' rest'
    where a: "f st v = Some (st1, v')" and b: "clone_all f st1 ps = Some (st', rest')"
    by (auto split: option.splits)
  from assms a obtain n1 where "st1 = st @ n1" by blast
  moreover from Cons.IH [OF b] obtain n2 where "st' = st1 @ n2" by blast
  ultimately show ?case by simp
qed

lemma cloneDeep_prefix: "cloneDeep n st v = Some (st', v') \<Longrightarrow> \<exists>new. st' = st @ new"
proof (induction n arbitrary: st v st' v')
  case 0
  then show ?case by (cases v) auto
next
  case (Suc n)
  show ?case
  proof (cases v)
    case (VRef a)
    with Suc.prems obtain ob s1 ps
      where c: "clone_all (cloneDeep n) st (props ob) = Some (s1, ps)"
        and st': "st' = s1 @ [ob\<lparr>props := ps\<rparr>]"
      by (auto split: option.splits)
    have "\<forall>s v s' v'. cloneDeep n s v = Some (s', v') \<longrightarrow> (\<exists>new. s' = s @ new)"
      using Suc.IH by blast
    from clone_all_prefix [OF this c] obtain new where "s1 = st @ new"
      by blast
    with st' show ?thesis by simp
  qed (use Suc.prems in auto)
qed

lemma clone_all_cloneDeep_prefix:
  "clone_all (cloneDeep n) st ps = Some (st', ps') \<Longrightarrow> \<exists>new. st' = st @ new"
  using clone_all_prefix [of "cloneDeep n" st ps st' ps'] cloneDeep_prefix by blast

lemma cloneDeep_ref:
  "cloneDeep n st (VRef a) = Some (st', v')
   \<Longrightarrow> v' = VRef (length st' - 1) \<and> length st < length st'"
proof (cases n)
  case 0
  assume "cloneDeep n st (VRef a) = Some (st', v')"
  with 0 show ?thesis by simp
next
  case (Suc m)
  assume "cloneDeep n st (VRef a) = Some (st', v')"
  with Suc obtain ob s1 ps
    where c: "clone_all (cloneDeep m) st (props ob) = Some (s1, ps)"
      and st': "st' = s1 @ [ob\<lparr>props := ps\<rparr>]" and v': "v' = VRef (length s1)"
    by (auto split: option.splits)
  from clone_all_cloneDeep_prefix [OF c] obtain new where "s1 = st @ new" by blast
  with st' v' show ?thesis by simp
qed

subsection \<open>get on a store: runs on renumbered stores\<close>

lemma old_closed_deref_ins: "old_closed b s \<Longrightarrow> a < b \<Longrightarrow> deref (ins b t s) a = deref s a"
  by (auto simp: old_closed_def deref_def ins_def nth_append)

lemma old_closed_props: "old_closed b s \<Longrightarrow> a < b \<Longrightarrow> deref s a = Some ob \<Longrightarrow> old_props b (props ob)"
proof -
  assume w: "old_closed b s" and a: "a < b" and d: "deref s a = Some ob"
  from w a d have "ob = take b s ! a" "a < length (take b s)"
    by (auto simp: old_closed_def deref_def split: if_splits)
  with w show ?thesis
    by (auto simp: old_closed_def closed_store_def list_all_length)
qed

lemma old_closed_append: "old_closed b s \<Longrightarrow> old_closed b (s @ new)"
  by (simp add: old_closed_def)

lemma ins_snoc:
  "b \<le> length s \<Longrightarrow> ins b t (s @ [ob]) = ins b t s @ [lift_obj b (length t) ob]"
  by (simp add: ins_def)

lemma length_ins: "b \<le> length s \<Longrightarrow> length (ins b t s) = length s + length t"
  by (simp add: ins_def)

lemma lift_old: "old_val b v \<Longrightarrow> lift_val b k v = v"
  by (cases v) (auto simp: old_val_def lift_val_def)

lemma clone_all_sim:
  assumes IH: "\<forall>s v s' v'. old_closed b s \<longrightarrow> old_val b v \<longrightarrow> f s v = Some (s', v')
                 \<longrightarrow> f (ins b t s) v = Some (ins b t s', lift_val b (length t) v')"
    and pre: "\<forall>s v s' v'. f s v = Some (s', v') \<longrightarrow> (\<exists>new. s' = s @ new)"
  shows "old_closed b s \<Longrightarrow> old_props b ps \<Longrightarrow> clone_all f s ps = Some (s', ps')
         \<Longrightarrow> clone_all f (ins b t s) ps = Some (ins b t s', lift_props b (length t) ps')"
proof (induction ps arbitrary: s s' ps')
  case Nil
  then show ?case by (simp add: lift_props_def)
next
  case (Cons kv ps)
  obtain k v where kv: "kv = (k, v)" by (cases kv)
  from Cons.prems kv obtain s1 v' rest'
    where a: "f s v = Some (s1, v')" and r: "clone_all f s1 ps = Some (s', rest')"
      and ps': "ps' = (k, v') # rest'"
    by (auto split: option.splits)
  from Cons.prems kv have ov: "old_val b v" and ops: "old_props b ps"
    by (simp_all add: old_props_def)
  from IH Cons.prems(1) ov a
  have a': "f (ins b t s) v = Some (ins b t s1, lift_val b (length t) v')"
    by blast
  from pre a obtain new where "s1 = s @ new" by blast
  with Cons.prems(1) have "old_closed b s1" by (simp add: old_closed_append)
  from Cons.IH [OF this ops r]
  have "clone_all f (ins b t s1) ps = Some (ins b t s', lift_props b (length t) rest')" .
  with a' kv ps' show ?case
    by (simp add: lift_props_def)
qed

lemma cloneDeep_sim:
  "old_closed b s \<Longrightarrow> old_val b v \<Longrightarrow> cloneDeep n s v = Some (s', v')
   \<Longrightarrow> cloneDeep n (ins b t s) v = Some (ins b t s', lift_val b (length t) v')"
proof (induction n arbitrary: s v s' v')
  case 0
  then show ?case by (cases v) (auto simp: lift_val_def)
next
  case (Suc n)
  show ?case
  proof (cases v)
    case (VRef a)
    with Suc.prems have a: "a < b" by (simp add: old_val_def)
    from Suc.prems VRef obtain ob s1 ps
      where d: "deref s a = Some ob"
        and c: "clone_all (cloneDeep n) s (props ob) = Some (s1, ps)"
        and s': "s' = s1 @ [ob\<lparr>props := ps\<rparr>]" and v': "v' = VRef (length s1)"
      by (auto split: option.splits)
    have IH: "\<forall>s v s' v'. old_closed b s \<longrightarrow> old_val b v \<longrightarrow> cloneDeep n s v = Some (s', v')
                 \<longrightarrow> cloneDeep n (ins b t s) v = Some (ins b t s', lift_val b (length t) v')"
      using Suc.IH by blast
    have pre: "\<forall>s v s' v'. cloneDeep n s v = Some (s', v') \<longrightarrow> (\<exists>new. s' = s @ new)"
      using cloneDeep_prefix by blast
    from old_closed_props [OF Suc.prems(1) a d] have "old_props b (props ob)" .
    from clone_all_sim [OF IH pre Suc.prems(1) this c]
    have c': "clone_all (cloneDeep n) (ins b t s) (props ob)
                = Some (ins b t s1, lift_props b (length t) ps)" .
    from clone_all_cloneDeep_prefix [OF c] obtain new where "s1 = s @ new" by blast
    with Suc.prems(1) have len: "b \<le> length s1" by (simp add: old_closed_def)
    have d': "deref (ins b t s) a = Some ob"
      using old_closed_deref_ins [OF Suc.prems(1) a] d by simp
    show ?thesis
      using VRef d' c' s' v' len
      by (simp add: ins_snoc length_ins lift_obj_def lift_val_def)
  next
    case VNull
    with Suc.prems show ?thesis by (auto simp: lift_val_def)
  next
    case (VBool x)
    with Suc.prems show ?thesis by (auto simp: lift_val_def)
  next
    case (VNum x)
    with Suc.prems show ?thesis by (auto simp: lift_val_def)
  next
    case (VStr x)
    with Suc.prems show ?thesis by (auto simp: lift_val_def)
  qed
qed

text \<open>Objects allocated later, under renumbering.\<close>

lemma deref_ins_fresh:
  "b \<le> length s \<Longrightarrow> b \<le> a
   \<Longrightarrow> deref (ins b t s) (a + length t) = map_option (lift_obj b (length t)) (deref s a)"
  by (auto simp: deref_def ins_def nth_append)

lemma ins_update_fresh:
  assumes "b \<le> c" and "c < length s"
  shows "(ins b t s)[c + length t := lift_obj b (length t) ob] = ins b t (s[c := ob])"
proof -
  let ?L = "lift_obj b (length t)"
  from assms have b: "b \<le> length s" by simp
  have idx: "c + length t - b - length t = c - b" "\<not> c + length t < b" "\<not> c + length t - b < length t"
    using assms by simp_all
  have "(ins b t s)[c + length t := ?L ob]
          = take b s @ t @ (map ?L (drop b s))[c - b := ?L ob]"
    using b idx by (simp add: ins_def list_update_append)
  also have "(map ?L (drop b s))[c - b := ?L ob] = map ?L ((drop b s)[c - b := ob])"
    by (simp add: map_update)
  also have "(drop b s)[c - b := ob] = drop b (s[c := ob])"
    using assms by (simp add: drop_update_swap)
  also have "take b s = take b (s[c := ob])"
    using assms by simp
  finally show ?thesis
    by (simp add: ins_def)
qed

lemma lift_props_filter:
  "filter (\<lambda>kv. \<not> internal (fst kv)) (lift_props b k ps)
     = lift_props b k (filter (\<lambda>kv. \<not> internal (fst kv)) ps)"
  by (induction ps) (auto simp: lift_props_def)

lemma lift_props_update:
  "lift_props b k (AList.update key v ps) = AList.update key (lift_val b k v) (lift_props b k ps)"
  by (induction ps) (auto simp: lift_props_def)

lemma lift_props_map_of:
  "map_of (lift_props b k ps) key = map_option (lift_val b k) (map_of ps key)"
  by (induction ps) (auto simp: lift_props_def)

lemma lift_fresh: "b \<le> a \<Longrightarrow> lift_val b k (VRef a) = VRef (a + k)"
  by (simp add: lift_val_def)

lemma exportClassData_s_sim:
  assumes "b \<le> c" and "exportClassData_s s (VRef c) = Some (s', v')"
  shows "exportClassData_s (ins b t s) (VRef (c + length t)) = Some (ins b t s', lift_val b (length t) v')"
proof -
  from assms(2) obtain ob where d: "deref s c = Some ob"
    and s': "s' = s[c := ob\<lparr>props := filter (\<lambda>kv. \<not> internal (fst kv)) (props ob)\<rparr>]"
    and v': "v' = VRef c"
    by (auto simp: exportClassData_s_def split: option.splits)
  from d have c: "c < length s" by (simp add: deref_def split: if_splits)
  with assms(1) have b: "b \<le> length s" by simp
  have "deref (ins b t s) (c + length t) = Some (lift_obj b (length t) ob)"
    using deref_ins_fresh [OF b assms(1), of t] d by simp
  moreover have "(ins b t s)[c + length t :=
        lift_obj b (length t) (ob\<lparr>props := filter (\<lambda>kv. \<not> internal (fst kv)) (props ob)\<rparr>)]
      = ins b t s'"
    using ins_update_fresh [OF assms(1) c] s' by simp
  ultimately show ?thesis
    using v' assms(1)
    by (simp add: exportClassData_s_def lift_obj_def lift_props_filter lift_fresh)
qed

lemma exportClassData_s_frame:
  assumes "b \<le> c" and "exportClassData_s s (VRef c) = Some (s', v')"
  shows "take b s' = take b s \<and> length s' = length s \<and> v' = VRef c \<and> c < length s"
  using assms by (auto simp: exportClassData_s_def deref_def split: option.splits if_splits)

text \<open>The document a value denotes does not change under renumbering.\<close>

lemma docs_of_cong:
  "(\<And>v. v \<in> snd ` set ps \<Longrightarrow> f (g v) = f' v)
   \<Longrightarrow> docs_of f (map (\<lambda>kv. (fst kv, g (snd kv))) ps) = docs_of f' ps"
proof (induction ps)
  case Nil
  then show ?case by simp
next
  case (Cons kv ps)
  obtain k v where kv: "kv = (k, v)" by (cases kv)
  have "f (g v) = f' v" using Cons.prems kv by simp
  moreover have "docs_of f (map (\<lambda>kv. (fst kv, g (snd kv))) ps) = docs_of f' ps"
    using Cons by simp
  ultimately show ?case using kv by (simp split: option.splits)
qed

lemma doc_of_ins:
  "old_closed b s \<Longrightarrow> doc_of m (ins b t s) (lift_val b (length t) v) = doc_of m s v"
proof (induction m arbitrary: v)
  case 0
  then show ?case by (cases v) (auto simp: lift_val_def)
next
  case (Suc m)
  have inner: "docs_of (doc_of m (ins b t s)) (lift_props b (length t) ps) = docs_of (doc_of m s) ps"
    for ps
    unfolding lift_props_def by (rule docs_of_cong) (rule Suc.IH [OF Suc.prems])
  from Suc.prems have len: "b \<le> length s" by (simp add: old_closed_def)
  show ?case
  proof (cases v)
    case (VRef a)
    show ?thesis
    proof (cases "a < b")
      case True
      then have same: "deref (ins b t s) a = deref s a"
        using old_closed_deref_ins [OF Suc.prems] by simp
      show ?thesis
      proof (cases "deref s a")
        case None
        with same VRef True show ?thesis by (simp add: lift_val_def)
      next
        case (Some ob)
        from old_closed_props [OF Suc.prems True Some] have "old_props b (props ob)" .
        then have "lift_props b (length t) (props ob) = props ob"
          by (induction "props ob" arbitrary: ob)
             (auto simp: lift_props_def old_props_def lift_old list_all_iff intro!: map_idI)
        with inner [of "props ob"] same Some VRef True show ?thesis
          by (simp add: lift_val_def)
      qed
    next
      case False
      then have fr: "b \<le> a" by simp
      show ?thesis
        using VRef fr deref_ins_fresh [OF len fr, of t] inner
        by (cases "deref s a") (simp_all add: lift_val_def lift_obj_def split: option.splits)
    qed
  qed (simp_all add: lift_val_def)
qed

subsection \<open>get on a store: a copy refers to its own objects\<close>

lemma fresh_closed_alt:
  "fresh_closed b st = list_all (\<lambda>ob. fresh_props b st (props ob)) (drop b st)"
  by (simp add: fresh_closed_def fresh_props_def)

lemma fresh_val_mono:
  "fresh_val b s v \<Longrightarrow> b' \<le> b \<Longrightarrow> length s \<le> length s' \<Longrightarrow> fresh_val b' s' v"
  by (cases v) (auto simp: fresh_val_def)

lemma fresh_props_mono:
  "fresh_props b s ps \<Longrightarrow> b' \<le> b \<Longrightarrow> length s \<le> length s' \<Longrightarrow> fresh_props b' s' ps"
  by (auto simp: fresh_props_def list_all_iff intro: fresh_val_mono)

lemma fresh_closed_grow:
  assumes "fresh_closed b s" and "b \<le> length s" and "fresh_closed (length s) (s @ new)"
  shows "fresh_closed b (s @ new)"
proof -
  have "list_all (\<lambda>ob. fresh_props b (s @ new) (props ob)) (drop b s)"
    using assms(1) by (auto simp: fresh_closed_alt list_all_iff intro: fresh_props_mono)
  moreover have "list_all (\<lambda>ob. fresh_props b (s @ new) (props ob)) new"
    using assms(2,3) by (auto simp: fresh_closed_alt list_all_iff intro: fresh_props_mono)
  ultimately show ?thesis
    using assms(2) by (simp add: fresh_closed_alt)
qed

lemma fresh_props_length:
  "length s' = length s \<Longrightarrow> fresh_props b s' ps = fresh_props b s ps"
  by (auto simp: fresh_props_def list_all_iff intro: fresh_val_mono)

lemma fresh_closed_update:
  assumes "fresh_closed b s" and "b \<le> c" and "c < length s" and "fresh_props b s (props ob)"
  shows "fresh_closed b (s[c := ob])"
proof -
  have "drop b (s[c := ob]) = (drop b s)[c - b := ob]"
    using assms(2) by (simp add: drop_update_swap)
  moreover have "list_all (\<lambda>ob. fresh_props b s (props ob)) ((drop b s)[c - b := ob])"
    using assms(1,4) by (auto simp: fresh_closed_alt list_all_iff dest!: set_update_subset_insert [THEN subsetD])
  ultimately show ?thesis
    by (simp add: fresh_closed_alt fresh_props_length [of "s[c := ob]" s])
qed

lemma fresh_closed_nth:
  "fresh_closed b s \<Longrightarrow> b \<le> c \<Longrightarrow> deref s c = Some ob \<Longrightarrow> fresh_props b s (props ob)"
proof -
  assume f: "fresh_closed b s" and c: "b \<le> c" and d: "deref s c = Some ob"
  from d have "c < length s" "ob = s ! c" by (auto simp: deref_def split: if_splits)
  with c have "ob \<in> set (drop b s)"
    by (auto simp: in_set_conv_nth intro!: exI [of _ "c - b"])
  with f show ?thesis by (simp add: fresh_closed_alt list_all_iff)
qed

lemma cloneDeep_fresh: "cloneDeep n s v = Some (s', v') \<Longrightarrow> fresh_val (length s) s' v'"
proof (cases v)
  case (VRef a)
  assume "cloneDeep n s v = Some (s', v')"
  with VRef cloneDeep_ref [of n s a s' v'] show ?thesis
    by (auto simp: fresh_val_def)
next
  case VNull
  assume "cloneDeep n s v = Some (s', v')"
  with VNull show ?thesis by (cases n) (auto simp: fresh_val_def)
next
  case (VBool x)
  assume "cloneDeep n s v = Some (s', v')"
  with VBool show ?thesis by (cases n) (auto simp: fresh_val_def)
next
  case (VNum x)
  assume "cloneDeep n s v = Some (s', v')"
  with VNum show ?thesis by (cases n) (auto simp: fresh_val_def)
next
  case (VStr x)
  assume "cloneDeep n s v = Some (s', v')"
  with VStr show ?thesis by (cases n) (auto simp: fresh_val_def)
qed

lemma clone_all_closed:
  assumes IH: "\<forall>s v s' v'. f s v = Some (s', v')
                 \<longrightarrow> (\<exists>new. s' = s @ new) \<and> fresh_val (length s) s' v' \<and> fresh_closed (length s) s'"
  shows "clone_all f s ps = Some (s', ps')
         \<Longrightarrow> (\<exists>new. s' = s @ new) \<and> fresh_props (length s) s' ps' \<and> fresh_closed (length s) s'"
proof (induction ps arbitrary: s s' ps')
  case Nil
  then show ?case by (simp add: fresh_props_def fresh_closed_alt)
next
  case (Cons kv ps)
  obtain k v where kv: "kv = (k, v)" by (cases kv)
  from Cons.prems kv obtain s1 v' rest'
    where a: "f s v = Some (s1, v')" and r: "clone_all f s1 ps = Some (s', rest')"
      and ps': "ps' = (k, v') # rest'"
    by (auto split: option.splits)
  from IH a obtain n1 where s1: "s1 = s @ n1" and fv: "fresh_val (length s) s1 v'"
    and fc1: "fresh_closed (length s) s1"
    by blast
  from Cons.IH [OF r] obtain n2 where s': "s' = s1 @ n2"
    and fr: "fresh_props (length s1) s' rest'" and fc2: "fresh_closed (length s1) s'"
    by blast
  have "fresh_props (length s) s' ps'"
    using ps' fv fr s1 s'
    by (auto simp: fresh_props_def list_all_iff intro: fresh_val_mono)
  moreover have "fresh_closed (length s) s'"
    using fresh_closed_grow [of "length s" s1 n2] fc1 fc2 s1 s' by simp
  ultimately show ?case using s1 s' by simp
qed

lemma cloneDeep_closed:
  "cloneDeep n s v = Some (s', v')
   \<Longrightarrow> (\<exists>new. s' = s @ new) \<and> fresh_val (length s) s' v' \<and> fresh_closed (length s) s'"
proof (induction n arbitrary: s v s' v')
  case 0
  then show ?case by (cases v) (auto simp: fresh_val_def fresh_closed_alt)
next
  case (Suc n)
  show ?case
  proof (cases v)
    case (VRef a)
    from Suc.prems VRef obtain ob s1 ps
      where c: "clone_all (cloneDeep n) s (props ob) = Some (s1, ps)"
        and s': "s' = s1 @ [ob\<lparr>props := ps\<rparr>]" and v': "v' = VRef (length s1)"
      by (auto split: option.splits)
    have IH: "\<forall>s v s' v'. cloneDeep n s v = Some (s', v')
                 \<longrightarrow> (\<exists>new. s' = s @ new) \<and> fresh_val (length s) s' v' \<and> fresh_closed (length s) s'"
      using Suc.IH by blast
    from clone_all_closed [OF IH c] obtain new where s1: "s1 = s @ new"
      and fp: "fresh_props (length s) s1 ps" and fc: "fresh_closed (length s) s1"
      by blast
    have "fresh_closed (length s) s'"
    proof -
      have "list_all (\<lambda>ob. fresh_props (length s) s' (props ob)) (drop (length s) s1)"
        using fc s' by (auto simp: fresh_closed_alt list_all_iff intro: fresh_props_mono)
      moreover have "fresh_props (length s) s' ps"
        using fp s' by (auto intro: fresh_props_mono)
      ultimately show ?thesis
        using s1 s' by (simp add: fresh_closed_alt)
    qed
    moreover have "fresh_val (length s) s' v'"
      using Suc.prems by (rule cloneDeep_fresh)
    ultimately show ?thesis
      using s1 s' by simp
  qed (use Suc.prems in \<open>auto simp: fresh_val_def fresh_closed_alt\<close>)
qed

subsection \<open>get on a store: the steps of get\<close>

lemma old_closed_take: "old_closed b s \<Longrightarrow> take b s' = take b s \<Longrightarrow> b \<le> length s' \<Longrightarrow> old_closed b s'"
  by (simp add: old_closed_def)

lemma take_append_same: "b \<le> length s \<Longrightarrow> take b (s @ new) = take b s"
  by simp

lemma set_alist_update: "set (AList.update k v ps) \<subseteq> insert (k, v) (set ps)"
  by (induction ps) auto

lemma fresh_props_update:
  "fresh_props b s ps \<Longrightarrow> fresh_val b s v \<Longrightarrow> fresh_props b s (AList.update k v ps)"
  using set_alist_update [of k v ps] by (auto simp: fresh_props_def list_all_iff)

lemma exportClassData_s_all:
  assumes "b \<le> c" and "fresh_closed b s" and "exportClassData_s s (VRef c) = Some (s', v')"
  shows "v' = VRef c \<and> c < length s \<and> take b s' = take b s \<and> length s' = length s
       \<and> fresh_closed b s'
       \<and> exportClassData_s (ins b t s) (VRef (c + length t)) = Some (ins b t s', VRef (c + length t))"
proof -
  from exportClassData_s_frame [OF assms(1,3)]
  have fr: "take b s' = take b s" "length s' = length s" "v' = VRef c" "c < length s"
    by simp_all
  from assms(3) obtain ob where d: "deref s c = Some ob"
    and s': "s' = s[c := ob\<lparr>props := filter (\<lambda>kv. \<not> internal (fst kv)) (props ob)\<rparr>]"
    by (auto simp: exportClassData_s_def split: option.splits)
  from fresh_closed_nth [OF assms(2,1) d]
  have "fresh_props b s (filter (\<lambda>kv. \<not> internal (fst kv)) (props ob))"
    by (auto simp: fresh_props_def list_all_iff)
  with fresh_closed_update [OF assms(2,1) fr(4)] s' have "fresh_closed b s'"
    by simp
  moreover from exportClassData_s_sim [OF assms(1,3)] fr(3) assms(1)
  have "exportClassData_s (ins b t s) (VRef (c + length t)) = Some (ins b t s', VRef (c + length t))"
    by (simp add: lift_fresh)
  ultimately show ?thesis using fr by simp
qed

lemma Function_get_s_all:
  assumes w: "old_closed b s" and fc: "fresh_closed b s" and old: "old_val b v"
    and run: "Function_get_s n s v = Some (s', d)"
  shows "\<exists>c. d = VRef c \<and> b \<le> c \<and> c < length s' \<and> take b s' = take b s \<and> length s \<le> length s'
       \<and> fresh_closed b s'
       \<and> Function_get_s n (ins b t s) v = Some (ins b t s', VRef (c + length t))"
proof -
  from run obtain a s1 cl where v: "v = VRef a"
    and cl: "cloneDeep n s (VRef a) = Some (s1, cl)" and ex: "exportClassData_s s1 cl = Some (s', d)"
    by (auto simp: Function_get_s_def split: val.splits option.splits)
  define c where "c = length s1 - 1"
  from cloneDeep_ref [OF cl] have clr: "cl = VRef c" and grow: "length s < length s1"
    by (simp_all add: c_def)
  from w have bs: "b \<le> length s" by (simp add: old_closed_def)
  from grow bs have c: "b \<le> c" "length s \<le> c" by (simp_all add: c_def)
  from cloneDeep_closed [OF cl] obtain new where s1: "s1 = s @ new"
    and fc1: "fresh_closed (length s) s1"
    by blast
  from fresh_closed_grow [OF fc bs] fc1 s1 have fcb: "fresh_closed b s1" by simp
  from ex clr have ex': "exportClassData_s s1 (VRef c) = Some (s', d)" by simp
  from exportClassData_s_all [OF c(1) fcb ex', of t]
  have e: "d = VRef c" "c < length s1" "take b s' = take b s1" "length s' = length s1"
    "fresh_closed b s'"
    "exportClassData_s (ins b t s1) (VRef (c + length t)) = Some (ins b t s', VRef (c + length t))"
    by simp_all
  from old v have "old_val b (VRef a)" by simp
  from cloneDeep_sim [OF w this cl, of t] clr c(1)
  have "cloneDeep n (ins b t s) (VRef a) = Some (ins b t s1, VRef (c + length t))"
    by (simp add: lift_fresh)
  with e(6) v have "Function_get_s n (ins b t s) v = Some (ins b t s', VRef (c + length t))"
    by (simp add: Function_get_s_def)
  moreover have "take b s' = take b s"
    using e(3) s1 bs by simp
  ultimately show ?thesis
    using e c grow by auto
qed

lemma get_children_all:
  "old_closed b s \<Longrightarrow> fresh_closed b s \<Longrightarrow> b \<le> target \<Longrightarrow> old_props b ps
   \<Longrightarrow> get_children n s target ps = Some s'
   \<Longrightarrow> take b s' = take b s \<and> length s \<le> length s' \<and> fresh_closed b s'
       \<and> get_children n (ins b t s) (target + length t) ps = Some (ins b t s')"
proof (induction ps arbitrary: s)
  case Nil
  then show ?case by simp
next
  case (Cons kv ps)
  obtain key v where kv: "kv = (key, v)" by (cases kv)
  from Cons.prems(5) kv obtain s1 d ob
    where g: "Function_get_s n s v = Some (s1, d)" and dt: "deref s1 target = Some ob"
      and rest: "get_children n (s1[target := ob\<lparr>props := AList.update key d (props ob)\<rparr>])
                   target ps = Some s'"
    by (auto split: option.splits)
  from Cons.prems(4) kv have ov: "old_val b v" and ops: "old_props b ps"
    by (simp_all add: old_props_def)
  from Function_get_s_all [OF Cons.prems(1,2) ov g, of t] obtain c
    where d: "d = VRef c" and c: "b \<le> c" "c < length s1"
      and fr: "take b s1 = take b s" "length s \<le> length s1" and fc1: "fresh_closed b s1"
      and sim: "Function_get_s n (ins b t s) v = Some (ins b t s1, VRef (c + length t))"
    by blast
  let ?ob = "ob\<lparr>props := AList.update key d (props ob)\<rparr>"
  let ?s2 = "s1[target := ?ob]"
  from dt have tl: "target < length s1" by (simp add: deref_def split: if_splits)
  from Cons.prems(1) have bs: "b \<le> length s" by (simp add: old_closed_def)
  have w1: "old_closed b s1"
    using old_closed_take [OF Cons.prems(1) fr(1)] bs fr(2) by simp
  have t2: "take b ?s2 = take b s1"
    using Cons.prems(3) by simp
  have w2: "old_closed b ?s2"
    using old_closed_take [OF w1 t2] bs fr(2) by simp
  have "fresh_props b s1 (props ob)"
    using fresh_closed_nth [OF fc1 Cons.prems(3) dt] .
  moreover have "fresh_val b s1 d"
    using d c by (simp add: fresh_val_def)
  ultimately have "fresh_props b s1 (props ?ob)"
    by (simp add: fresh_props_update)
  from fresh_closed_update [OF fc1 Cons.prems(3) tl this] have fc2: "fresh_closed b ?s2" .
  from Cons.IH [OF w2 fc2 Cons.prems(3) ops rest]
  have ih: "take b s' = take b ?s2" "length ?s2 \<le> length s'" "fresh_closed b s'"
    "get_children n (ins b t ?s2) (target + length t) ps = Some (ins b t s')"
    by simp_all
  have len1: "b \<le> length s1" using bs fr(2) by simp
  have dt': "deref (ins b t s1) (target + length t) = Some (lift_obj b (length t) ob)"
    using deref_ins_fresh [OF len1 Cons.prems(3), of t] dt by simp
  have upd: "(ins b t s1)[target + length t := lift_obj b (length t) ?ob] = ins b t ?s2"
    using ins_update_fresh [OF Cons.prems(3) tl] .
  have "lift_obj b (length t) ?ob
          = (lift_obj b (length t) ob)\<lparr>props := AList.update key (VRef (c + length t))
                                                  (props (lift_obj b (length t) ob))\<rparr>"
    using d c by (simp add: lift_obj_def lift_props_update lift_fresh)
  with upd have upd': "(ins b t s1)[target + length t :=
        (lift_obj b (length t) ob)\<lparr>props := AList.update key (VRef (c + length t))
                                                  (props (lift_obj b (length t) ob))\<rparr>]
      = ins b t ?s2"
    by simp
  have "get_children n (ins b t s) (target + length t) (kv # ps) = Some (ins b t s')"
    using kv sim dt' upd' ih(4) by simp
  then show ?case
    using ih fr t2 by simp
qed

lemma field_ins_old: "old_closed b s \<Longrightarrow> a < b \<Longrightarrow> field (ins b t s) a key = field s a key"
  by (simp add: field_def old_closed_deref_ins)

lemma field_ins_fresh:
  "b \<le> length s \<Longrightarrow> b \<le> c
   \<Longrightarrow> field (ins b t s) (c + length t) key = map_option (lift_val b (length t)) (field s c key)"
  using deref_ins_fresh [of b s c t]
  by (cases "deref s c") (simp_all add: field_def lift_obj_def lift_props_map_of)

lemma field_old:
  assumes "old_closed b s" and "a < b" and "field s a key = Some v"
  shows "old_val b v"
proof -
  from assms(3) obtain ob where d: "deref s a = Some ob" and m: "map_of (props ob) key = Some v"
    by (auto simp: field_def split: option.splits)
  from old_closed_props [OF assms(1,2) d] map_of_SomeD [OF m] show ?thesis
    by (auto simp: old_props_def list_all_iff)
qed

lemma field_fresh:
  assumes "fresh_closed b s" and "b \<le> c" and "field s c key = Some v"
  shows "fresh_val b s v"
proof -
  from assms(3) obtain ob where d: "deref s c = Some ob" and m: "map_of (props ob) key = Some v"
    by (auto simp: field_def split: option.splits)
  from fresh_closed_nth [OF assms(1,2) d] map_of_SomeD [OF m] show ?thesis
    by (auto simp: fresh_props_def list_all_iff)
qed

lemma get_s_all:
  assumes cs: "closed_store st" and run: "get_s n st this = Some (st1, d)"
  shows "\<exists>c. d = VRef c \<and> length st \<le> c \<and> c < length st1 \<and> take (length st) st1 = st
       \<and> fresh_closed (length st) st1
       \<and> get_s n (st @ t) this = Some (ins (length st) t st1, VRef (c + length t))"
proof -
  define b where "b = length st"
  have w: "old_closed b st" using cs by (simp add: old_closed_def b_def)
  have fc: "fresh_closed b st" by (simp add: fresh_closed_def b_def)
  have ins0: "ins b t st = st @ t" by (simp add: ins_def b_def)
  from run obtain s1 clone where cl: "cloneDeep n st (VRef this) = Some (s1, clone)"
    by (auto simp: get_s_def split: option.splits)
  have self: "this < b"
    using cl by (cases n) (auto simp: deref_def b_def split: option.splits if_splits)
  then have old_this: "old_val b (VRef this)" by (simp add: old_val_def)
  define c where "c = length s1 - 1"
  from cloneDeep_ref [OF cl] have clr: "clone = VRef c" and grow: "length st < length s1"
    by (simp_all add: c_def)
  have c: "b \<le> c" "c < length s1" using grow by (simp_all add: c_def b_def)
  from cloneDeep_closed [OF cl] obtain new where s1: "s1 = st @ new"
    and fc1: "fresh_closed b s1"
    by (auto simp: b_def)
  have w1: "old_closed b s1" using w s1 by (simp add: old_closed_append)
  have t1: "take b s1 = st" using s1 by (simp add: b_def)
  have len1: "b \<le> length s1" using c by simp
  from cloneDeep_sim [OF w old_this cl, of t] clr c(1)
  have cl': "cloneDeep n (st @ t) (VRef this) = Some (ins b t s1, VRef (c + length t))"
    by (simp add: lift_fresh ins0)
  have fld: "field (ins b t s1) this ''functions'' = field s1 this ''functions''"
    using field_ins_old [OF w1 self] .
  show ?thesis
  proof (cases "\<exists>fm. field s1 this ''functions'' = Some (VRef fm)")
    case True
    then obtain fm where f: "field s1 this ''functions'' = Some (VRef fm)" by blast
    from field_old [OF w1 self f] have fm: "fm < b" by (simp add: old_val_def)
    from run cl clr f obtain fobj target s2
      where df: "deref s1 fm = Some fobj"
        and ft: "field s1 c ''functions'' = Some (VRef target)"
        and gc: "get_children n s1 target (props fobj) = Some s2"
        and ex: "exportClassData_s s2 (VRef c) = Some (st1, d)"
      by (auto simp: get_s_def split: option.splits val.splits)
    from old_closed_props [OF w1 fm df] have ops: "old_props b (props fobj)" .
    from field_fresh [OF fc1 c(1) ft] have tg: "b \<le> target" by (simp add: fresh_val_def)
    from get_children_all [OF w1 fc1 tg ops gc, of t]
    have g: "take b s2 = take b s1" "length s1 \<le> length s2" "fresh_closed b s2"
      "get_children n (ins b t s1) (target + length t) (props fobj) = Some (ins b t s2)"
      by simp_all
    from exportClassData_s_all [OF c(1) g(3) ex, of t]
    have e: "d = VRef c" "take b st1 = take b s2" "length st1 = length s2" "fresh_closed b st1"
      "exportClassData_s (ins b t s2) (VRef (c + length t)) = Some (ins b t st1, VRef (c + length t))"
      by simp_all
    have df': "deref (ins b t s1) fm = Some fobj"
      using old_closed_deref_ins [OF w1 fm] df by simp
    have ft': "field (ins b t s1) (c + length t) ''functions'' = Some (VRef (target + length t))"
      using field_ins_fresh [OF len1 c(1), of t "''functions''"] ft tg by (simp add: lift_fresh)
    have "get_s n (st @ t) this = Some (ins b t st1, VRef (c + length t))"
      using cl' fld f df' ft' g(4) e(5) by (simp add: get_s_def)
    moreover have "take b st1 = st" using e(2) g(1) t1 by simp
    moreover have "c < length st1" using c(2) g(2) e(3) by simp
    ultimately show ?thesis
      using e(1,4) c(1) by (auto simp: b_def)
  next
    case False
    with run cl clr have ex: "exportClassData_s s1 (VRef c) = Some (st1, d)"
      by (auto simp: get_s_def split: option.splits val.splits if_splits)
    from False run cl clr have str: "field s1 this ''functions'' = Some (VStr x) \<Longrightarrow> x = []" for x
      by (auto simp: get_s_def split: option.splits val.splits if_splits)
    from exportClassData_s_all [OF c(1) fc1 ex, of t]
    have e: "d = VRef c" "take b st1 = take b s1" "length st1 = length s1" "fresh_closed b st1"
      "exportClassData_s (ins b t s1) (VRef (c + length t)) = Some (ins b t st1, VRef (c + length t))"
      by simp_all
    have "get_s n (st @ t) this = Some (ins b t st1, VRef (c + length t))"
      using cl' fld False e(5) str by (auto simp: get_s_def split: option.splits val.splits)
    moreover have "take b st1 = st" using e(2) t1 by simp
    moreover have "c < length st1" using c(2) e(3) by simp
    ultimately show ?thesis
      using e(1,4) c(1) by (auto simp: b_def)
  qed
qed

subsection \<open>get on a store: get returns\<close>

lemma docs_of_mono_on:
  "(\<And>v j. v \<in> snd ` set ps \<Longrightarrow> f v = Some j \<Longrightarrow> g v = Some j)
   \<Longrightarrow> docs_of f ps = Some js \<Longrightarrow> docs_of g ps = Some js"
proof (induction ps arbitrary: js)
  case Nil
  then show ?case by simp
next
  case (Cons kv ps)
  obtain k v where kv: "kv = (k, v)" by (cases kv)
  from Cons.prems(2) kv obtain j rest
    where f: "f v = Some j" and r: "docs_of f ps = Some rest" and js: "js = (k, j) # rest"
    by (auto split: option.splits)
  have "g v = Some j"
    using Cons.prems(1) [of v j] f kv by simp
  moreover have "docs_of g ps = Some rest"
    using Cons.IH [OF _ r] Cons.prems(1) by simp
  ultimately show ?case
    using kv js by simp
qed

lemma docs_of_mono:
  "(\<And>v j. f v = Some j \<Longrightarrow> g v = Some j) \<Longrightarrow> docs_of f ps = Some js \<Longrightarrow> docs_of g ps = Some js"
  by (rule docs_of_mono_on)

lemma doc_of_append: "doc_of n s v = Some j \<Longrightarrow> doc_of n (s @ new) v = Some j"
proof (induction n arbitrary: v j)
  case 0
  then show ?case by (cases v) auto
next
  case (Suc n)
  show ?case
  proof (cases v)
    case (VRef a)
    with Suc.prems obtain ob js where d: "deref s a = Some ob"
      and ds: "docs_of (doc_of n s) (props ob) = Some js"
      and j: "j = (if kind ob = ArrayObject then JArr (map snd js) else JObj js)"
      by (auto split: option.splits)
    from docs_of_mono [OF Suc.IH ds] have "docs_of (doc_of n (s @ new)) (props ob) = Some js" .
    with VRef deref_append [OF d] j show ?thesis by simp
  qed (use Suc.prems in auto)
qed

lemma doc_of_fuel: "doc_of n s v = Some j \<Longrightarrow> doc_of (Suc n) s v = Some j"
proof (induction n arbitrary: v j)
  case 0
  then show ?case by (cases v) auto
next
  case (Suc n)
  show ?case
  proof (cases v)
    case (VRef a)
    with Suc.prems obtain ob js where d: "deref s a = Some ob"
      and ds: "docs_of (doc_of n s) (props ob) = Some js"
      and j: "j = (if kind ob = ArrayObject then JArr (map snd js) else JObj js)"
      by (auto split: option.splits)
    from docs_of_mono [OF Suc.IH ds] have "docs_of (doc_of (Suc n) s) (props ob) = Some js" .
    with VRef d j show ?thesis by simp
  qed (use Suc.prems in auto)
qed

lemma doc_of_old:
  "old_closed b s \<Longrightarrow> take b s' = take b s \<Longrightarrow> b \<le> length s' \<Longrightarrow> old_val b v
   \<Longrightarrow> doc_of n s v = Some j \<Longrightarrow> doc_of n s' v = Some j"
proof (induction n arbitrary: v j)
  case 0
  then show ?case by (cases v) auto
next
  case (Suc n)
  show ?case
  proof (cases v)
    case (VRef a)
    with Suc.prems(4) have a: "a < b" by (simp add: old_val_def)
    from Suc.prems(5) VRef obtain ob js where d: "deref s a = Some ob"
      and ds: "docs_of (doc_of n s) (props ob) = Some js"
      and j: "j = (if kind ob = ArrayObject then JArr (map snd js) else JObj js)"
      by (auto split: option.splits)
    from old_closed_props [OF Suc.prems(1) a d] have ops: "old_props b (props ob)" .
    have d': "deref s' a = Some ob"
    proof -
      from d a Suc.prems(1) have "ob = take b s ! a" by (auto simp: deref_def old_closed_def split: if_splits)
      with Suc.prems(2) a have "ob = s' ! a" by (metis nth_take)
      with a Suc.prems(3) show ?thesis by (simp add: deref_def)
    qed
    have "docs_of (doc_of n s') (props ob) = Some js"
    proof (rule docs_of_mono_on [OF _ ds])
      fix w j'
      assume "w \<in> snd ` set (props ob)" and "doc_of n s w = Some j'"
      moreover from this(1) ops have "old_val b w"
        by (auto simp: old_props_def list_all_iff)
      ultimately show "doc_of n s' w = Some j'"
        using Suc.IH [OF Suc.prems(1,2,3)] by blast
    qed
    with VRef d' j show ?thesis by simp
  qed (use Suc.prems in auto)
qed

lemma clone_all_returns:
  assumes IH: "\<forall>s v j. doc_of n s v = Some j \<longrightarrow> (\<exists>s' v'. cloneDeep n s v = Some (s', v'))"
  shows "docs_of (doc_of n s) ps = Some js \<Longrightarrow> \<exists>s' ps'. clone_all (cloneDeep n) s ps = Some (s', ps')"
proof (induction ps arbitrary: s js)
  case Nil
  then show ?case by simp
next
  case (Cons kv ps)
  obtain k v where kv: "kv = (k, v)" by (cases kv)
  from Cons.prems kv obtain j rest
    where f: "doc_of n s v = Some j" and r: "docs_of (doc_of n s) ps = Some rest"
    by (auto split: option.splits)
  from IH f obtain s1 v' where c: "cloneDeep n s v = Some (s1, v')" by blast
  from cloneDeep_prefix [OF c] obtain new where "s1 = s @ new" by blast
  with docs_of_mono [OF doc_of_append r] have "docs_of (doc_of n s1) ps = Some rest"
    by simp
  from Cons.IH [OF this] obtain s' ps' where "clone_all (cloneDeep n) s1 ps = Some (s', ps')"
    by blast
  with c kv show ?case by simp
qed

lemma cloneDeep_returns: "doc_of n s v = Some j \<Longrightarrow> \<exists>s' v'. cloneDeep n s v = Some (s', v')"
proof (induction n arbitrary: s v j)
  case 0
  then show ?case by (cases v) auto
next
  case (Suc n)
  show ?case
  proof (cases v)
    case (VRef a)
    with Suc.prems obtain ob js where d: "deref s a = Some ob"
      and ds: "docs_of (doc_of n s) (props ob) = Some js"
      by (auto split: option.splits)
    have "\<forall>s v j. doc_of n s v = Some j \<longrightarrow> (\<exists>s' v'. cloneDeep n s v = Some (s', v'))"
      using Suc.IH by blast
    from clone_all_returns [OF this ds] obtain s' ps'
      where "clone_all (cloneDeep n) s (props ob) = Some (s', ps')"
      by blast
    with VRef d show ?thesis by simp
  qed simp_all
qed

lemma clone_all_ref:
  "clone_all (cloneDeep n) s ps = Some (s', ps') \<Longrightarrow> map_of ps key = Some (VRef a)
   \<Longrightarrow> \<exists>r. map_of ps' key = Some (VRef r)"
proof (induction ps arbitrary: s ps')
  case Nil
  then show ?case by simp
next
  case (Cons kv ps)
  obtain k v where kv: "kv = (k, v)" by (cases kv)
  from Cons.prems(1) kv obtain s1 v' rest'
    where c: "cloneDeep n s v = Some (s1, v')" and r: "clone_all (cloneDeep n) s1 ps = Some (s', rest')"
      and ps': "ps' = (k, v') # rest'"
    by (auto split: option.splits)
  show ?case
  proof (cases "k = key")
    case True
    with Cons.prems(2) kv have "v = VRef a" by simp
    with cloneDeep_ref [of n s a s1 v'] c have "v' = VRef (length s1 - 1)" by simp
    with True ps' show ?thesis by simp
  next
    case False
    with Cons.prems(2) kv have "map_of ps key = Some (VRef a)" by simp
    from Cons.IH [OF r this] False ps' show ?thesis by simp
  qed
qed

lemma cloneDeep_field_ref:
  assumes "cloneDeep n s (VRef a) = Some (s', VRef c)" and "field s a key = Some (VRef r)"
  shows "\<exists>r'. field s' c key = Some (VRef r')"
proof -
  from assms(1) obtain m ob s1 ps where n: "n = Suc m" and d: "deref s a = Some ob"
    and ca: "clone_all (cloneDeep m) s (props ob) = Some (s1, ps)"
    and s': "s' = s1 @ [ob\<lparr>props := ps\<rparr>]" and c: "c = length s1"
    by (cases n) (auto split: option.splits)
  from assms(2) d have "map_of (props ob) key = Some (VRef r)"
    by (simp add: field_def)
  from clone_all_ref [OF ca this] obtain r' where "map_of ps key = Some (VRef r')" by blast
  with s' c show ?thesis
    by (auto simp: field_def deref_def)
qed

lemma exportClassData_s_returns:
  "c < length s \<Longrightarrow> \<exists>s'. exportClassData_s s (VRef c) = Some (s', VRef c)"
  by (simp add: exportClassData_s_def deref_def)

lemma get_children_returns:
  "old_closed b s \<Longrightarrow> fresh_closed b s \<Longrightarrow> b \<le> target \<Longrightarrow> target < length s
   \<Longrightarrow> list_all (\<lambda>kv. \<exists>a j. snd kv = VRef a \<and> a < b \<and> doc_of n s (VRef a) = Some j) ps
   \<Longrightarrow> \<exists>s'. get_children n s target ps = Some s'"
proof (induction ps arbitrary: s)
  case Nil
  then show ?case by simp
next
  case (Cons kv ps)
  obtain key v where kv: "kv = (key, v)" by (cases kv)
  from Cons.prems(5) kv obtain a j where v: "v = VRef a" and a: "a < b"
    and rd: "doc_of n s (VRef a) = Some j"
    by auto
  from cloneDeep_returns [OF rd] obtain s0 cl where cl: "cloneDeep n s (VRef a) = Some (s0, cl)"
    by blast
  from cloneDeep_ref [OF cl] have clr: "cl = VRef (length s0 - 1)" "length s < length s0"
    by simp_all
  then have "length s0 - 1 < length s0" by simp
  from exportClassData_s_returns [OF this] obtain s1
    where "exportClassData_s s0 (VRef (length s0 - 1)) = Some (s1, VRef (length s0 - 1))"
    by blast
  with cl clr v have g: "Function_get_s n s v = Some (s1, VRef (length s0 - 1))"
    by (simp add: Function_get_s_def)
  from a v have ov: "old_val b v" by (simp add: old_val_def)
  from Function_get_s_all [OF Cons.prems(1,2) ov g, of "[]"] obtain c
    where c: "b \<le> c" "c < length s1" and cv: "VRef (length s0 - 1) = VRef c"
      and fr: "take b s1 = take b s" "length s \<le> length s1" and fc1: "fresh_closed b s1"
    by blast
  from Cons.prems(4) fr(2) have tl: "target < length s1" by simp
  then obtain ob where dt: "deref s1 target = Some ob" by (simp add: deref_def)
  let ?ob = "ob\<lparr>props := AList.update key (VRef c) (props ob)\<rparr>"
  let ?s2 = "s1[target := ?ob]"
  from Cons.prems(1) have bs: "b \<le> length s" by (simp add: old_closed_def)
  have w1: "old_closed b s1"
    using old_closed_take [OF Cons.prems(1) fr(1)] bs fr(2) by simp
  have t2: "take b ?s2 = take b s1"
    using Cons.prems(3) by simp
  have w2: "old_closed b ?s2"
    using old_closed_take [OF w1 t2] bs fr(2) by simp
  have "fresh_props b s1 (props ?ob)"
    using fresh_closed_nth [OF fc1 Cons.prems(3) dt] c
    by (simp add: fresh_props_update fresh_val_def)
  from fresh_closed_update [OF fc1 Cons.prems(3) tl this] have fc2: "fresh_closed b ?s2" .
  have rest: "list_all (\<lambda>kv. \<exists>a j. snd kv = VRef a \<and> a < b \<and> doc_of n ?s2 (VRef a) = Some j) ps"
  proof -
    have "\<exists>a j. snd kv' = VRef a \<and> a < b \<and> doc_of n ?s2 (VRef a) = Some j"
      if "kv' \<in> set ps" for kv'
    proof -
      from that Cons.prems(5) obtain a' j' where k: "snd kv' = VRef a'" "a' < b"
        "doc_of n s (VRef a') = Some j'"
        by (auto simp: list_all_iff)
      have "take b ?s2 = take b s" using t2 fr(1) by simp
      moreover have "b \<le> length ?s2" using bs fr(2) by simp
      moreover have "old_val b (VRef a')" using k(2) by (simp add: old_val_def)
      ultimately have "doc_of n ?s2 (VRef a') = Some j'"
        using doc_of_old [OF Cons.prems(1) _ _ _ k(3)] by blast
      with k show ?thesis by blast
    qed
    then show ?thesis by (simp add: list_all_iff)
  qed
  have "target < length ?s2" using tl by simp
  from Cons.IH [OF w2 fc2 Cons.prems(3) this rest] obtain s'
    where "get_children n ?s2 target ps = Some s'" by blast
  with g cv dt kv show ?case by auto
qed

lemma docs_of_member:
  "docs_of f ps = Some js \<Longrightarrow> kv \<in> set ps \<Longrightarrow> \<exists>j. f (snd kv) = Some j"
  by (induction ps arbitrary: js) (auto split: option.splits)

lemma field_append: "a < length s \<Longrightarrow> field (s @ new) a key = field s a key"
  by (simp add: field_def deref_def nth_append)

lemma doc_of_children:
  assumes "doc_of n st (VRef this) = Some j" and "field st this ''functions'' = Some (VRef fm)"
    and "deref st fm = Some fobj" and "kv \<in> set (props fobj)"
  shows "\<exists>j'. doc_of n st (snd kv) = Some j'"
proof -
  from assms(1) obtain m ob js where n: "n = Suc m" and d: "deref st this = Some ob"
    and ds: "docs_of (doc_of m st) (props ob) = Some js"
    by (cases n) (auto split: option.splits)
  from assms(2) d have "(''functions'', VRef fm) \<in> set (props ob)"
    by (auto simp: field_def dest: map_of_SomeD)
  from docs_of_member [OF ds this] obtain j1 where j1: "doc_of m st (VRef fm) = Some j1"
    by auto
  with assms(3) obtain m' js' where m: "m = Suc m'"
    and ds': "docs_of (doc_of m' st) (props fobj) = Some js'"
    by (cases m) (auto split: option.splits)
  from docs_of_member [OF ds' assms(4)] obtain j' where "doc_of m' st (snd kv) = Some j'"
    by blast
  then have "doc_of (Suc (Suc m')) st (snd kv) = Some j'"
    by (intro doc_of_fuel)
  with n m show ?thesis by simp
qed

lemma get_s_returns:
  assumes cs: "closed_store st" and rd: "doc_of n st (VRef this) = Some j"
    and ch: "children_are_objects st this"
  shows "\<exists>st1 d. get_s n st this = Some (st1, d)"
proof -
  define b where "b = length st"
  have w: "old_closed b st" using cs by (simp add: old_closed_def b_def)
  from cloneDeep_returns [OF rd] obtain s1 clone
    where cl: "cloneDeep n st (VRef this) = Some (s1, clone)" by blast
  have self: "this < b"
    using cl by (cases n) (auto simp: deref_def b_def split: option.splits if_splits)
  define c where "c = length s1 - 1"
  from cloneDeep_ref [OF cl] have clr: "clone = VRef c" and grow: "length st < length s1"
    by (simp_all add: c_def)
  have c: "b \<le> c" "c < length s1" using grow by (simp_all add: c_def b_def)
  from cloneDeep_closed [OF cl] obtain new where s1: "s1 = st @ new"
    and fc1: "fresh_closed b s1"
    by (auto simp: b_def)
  have w1: "old_closed b s1" using w s1 by (simp add: old_closed_append)
  have fld: "field s1 this ''functions'' = field st this ''functions''"
    using self s1 by (simp add: field_append b_def)
  show ?thesis
  proof (cases "\<exists>fm. field st this ''functions'' = Some (VRef fm)")
    case True
    then obtain fm where f: "field st this ''functions'' = Some (VRef fm)" by blast
    with ch obtain fobj where df: "deref st fm = Some fobj"
      and refs: "list_all (\<lambda>kv. case snd kv of VRef a \<Rightarrow> True | _ \<Rightarrow> False) (props fobj)"
      by (auto simp: children_are_objects_def split: option.splits)
    from df s1 have df1: "deref s1 fm = Some fobj" by (simp add: deref_append)
    from field_old [OF w self f] have fm: "fm < b" by (simp add: old_val_def)
    from cl clr have "cloneDeep n st (VRef this) = Some (s1, VRef c)" by simp
    from cloneDeep_field_ref [OF this f] obtain target
      where ft: "field s1 c ''functions'' = Some (VRef target)" by blast
    from field_fresh [OF fc1 c(1) ft] have tg: "b \<le> target" "target < length s1"
      by (simp_all add: fresh_val_def)
    have kids: "list_all (\<lambda>kv. \<exists>a j. snd kv = VRef a \<and> a < b \<and> doc_of n s1 (VRef a) = Some j)
                  (props fobj)"
    proof -
      have "\<exists>a j. snd kv = VRef a \<and> a < b \<and> doc_of n s1 (VRef a) = Some j"
        if "kv \<in> set (props fobj)" for kv
      proof -
        from that refs have "case snd kv of VRef a \<Rightarrow> True | _ \<Rightarrow> False"
          by (simp add: list_all_iff)
        then obtain a where a: "snd kv = VRef a"
          by (cases "snd kv") simp_all
        from old_closed_props [OF w fm df] that a have "a < b"
          by (auto simp: old_props_def list_all_iff old_val_def)
        moreover from doc_of_children [OF rd f df that] a obtain j'
          where "doc_of n st (VRef a) = Some j'" by auto
        then have "doc_of n s1 (VRef a) = Some j'"
          using s1 by (simp add: doc_of_append)
        ultimately show ?thesis using a by blast
      qed
      then show ?thesis by (simp add: list_all_iff)
    qed
    from get_children_returns [OF w1 fc1 tg kids] obtain s2
      where gc: "get_children n s1 target (props fobj) = Some s2" by blast
    from old_closed_props [OF w1 fm df1] have ops: "old_props b (props fobj)" .
    from get_children_all [OF w1 fc1 tg(1) ops gc, of "[]"] have "length s1 \<le> length s2"
      by simp
    with c(2) have "c < length s2" by simp
    from exportClassData_s_returns [OF this] obtain st1
      where "exportClassData_s s2 (VRef c) = Some (st1, VRef c)" by blast
    with cl clr fld f df1 ft gc show ?thesis
      by (simp add: get_s_def)
  next
    case False
    from exportClassData_s_returns [OF c(2)] obtain st1
      where "exportClassData_s s1 (VRef c) = Some (st1, VRef c)" by blast
    moreover from ch have "field st this ''functions'' = Some (VStr x) \<Longrightarrow> x = []" for x
      by (simp add: children_are_objects_def)
    ultimately show ?thesis
      using cl clr fld False by (auto simp: get_s_def split: option.splits val.splits)
  qed
qed

lemma assignment_frame: "b \<le> fst w \<Longrightarrow> take b (assignment st w) = take b st"
  by (cases w) (auto simp: assignment_def split: option.splits)

lemma assignments_frame: "list_all (\<lambda>w. b \<le> fst w) ws \<Longrightarrow> take b (assignments st ws) = take b st"
  unfolding assignments_def by (induction ws arbitrary: st) (simp_all add: assignment_frame)

subsection \<open>get on a store: the document returned\<close>

lemma docs_of_cong_on:
  "(\<And>v. v \<in> snd ` set ps \<Longrightarrow> f v = g v) \<Longrightarrow> docs_of f ps = docs_of g ps"
proof (induction ps)
  case Nil
  then show ?case by simp
next
  case (Cons kv ps)
  obtain k v where kv: "kv = (k, v)" by (cases kv)
  have "f v = g v" using Cons.prems kv by simp
  moreover have "docs_of f ps = docs_of g ps" using Cons by simp
  ultimately show ?case using kv by (simp split: option.splits)
qed

lemma doc_of_region:
  "region_ok A s s' \<Longrightarrow> within A v \<Longrightarrow> doc_of m s' v = doc_of m s v"
proof (induction m arbitrary: v)
  case 0
  then show ?case by (cases v) auto
next
  case (Suc m)
  show ?case
  proof (cases v)
    case (VRef r)
    with Suc.prems(2) have r: "r \<in> A" by (simp add: within_def)
    with Suc.prems(1) have d: "deref s' r = Some (s ! r)" "deref s r = Some (s ! r)"
      and inner: "\<forall>kv \<in> set (props (s ! r)). within A (snd kv)"
      by (auto simp: region_ok_def deref_def)
    have "docs_of (doc_of m s') (props (s ! r)) = docs_of (doc_of m s) (props (s ! r))"
      by (rule docs_of_cong_on) (use inner Suc.IH [OF Suc.prems(1)] in auto)
    with VRef d show ?thesis by simp
  qed simp_all
qed


lemma fresh_closed_iff:
  "fresh_closed b s = (\<forall>a. b \<le> a \<and> a < length s \<longrightarrow> fresh_props b s (props (s ! a)))"
proof
  assume f: "fresh_closed b s"
  show "\<forall>a. b \<le> a \<and> a < length s \<longrightarrow> fresh_props b s (props (s ! a))"
  proof (intro allI impI)
    fix a assume "b \<le> a \<and> a < length s"
    then have "deref s a = Some (s ! a)" "b \<le> a" by (simp_all add: deref_def)
    with fresh_closed_nth [OF f] show "fresh_props b s (props (s ! a))" by blast
  qed
next
  assume r: "\<forall>a. b \<le> a \<and> a < length s \<longrightarrow> fresh_props b s (props (s ! a))"
  show "fresh_closed b s"
    unfolding fresh_closed_alt list_all_iff
  proof
    fix ob assume "ob \<in> set (drop b s)"
    then obtain i where "i < length s - b" "ob = s ! (b + i)"
      by (auto simp: in_set_conv_nth)
    with r show "fresh_props b s (props ob)" by simp
  qed
qed

lemma closed_store_iff:
  "closed_store s = (\<forall>a < length s. old_props (length s) (props (s ! a)))"
  by (simp add: closed_store_def list_all_length)

lemma fresh_old_props: "fresh_props b s ps \<Longrightarrow> old_props (length s) ps"
  by (auto simp: fresh_props_def old_props_def list_all_iff fresh_val_def old_val_def split: val.splits)

lemma old_props_mono: "old_props b ps \<Longrightarrow> b \<le> b' \<Longrightarrow> old_props b' ps"
  by (auto simp: old_props_def list_all_iff old_val_def split: val.splits)

lemma closed_from:
  assumes "closed_store (take b s)" and "b \<le> length s" and "fresh_closed b s"
  shows "closed_store s"
  unfolding closed_store_iff
proof (intro allI impI)
  fix a assume a: "a < length s"
  show "old_props (length s) (props (s ! a))"
  proof (cases "a < b")
    case True
    with assms(1,2) have "old_props b (props (s ! a))"
      by (auto simp: closed_store_iff)
    with assms(2) show ?thesis using old_props_mono by blast
  next
    case False
    with a assms(3) have "fresh_props b s (props (s ! a))" by (simp add: fresh_closed_iff)
    then show ?thesis by (rule fresh_old_props)
  qed
qed

lemma cloneDeep_closed_store:
  assumes "closed_store s" and "cloneDeep n s v = Some (s', v')"
  shows "closed_store s'"
proof -
  from cloneDeep_closed [OF assms(2)] obtain new where s': "s' = s @ new"
    and fc: "fresh_closed (length s) s'"
    by blast
  have tk: "take (length s) s' = s" and ln: "length s \<le> length s'" by (simp_all add: s')
  show ?thesis
    by (rule closed_from [of "length s"]) (simp_all only: tk assms(1) ln fc)
qed

lemma region_old:
  assumes "closed_store (take b s)" and "b \<le> length s" and "take b s' = take b s" and "b \<le> length s'"
  shows "region_ok {..<b} s s'"
  unfolding region_ok_def
proof
  fix a assume "a \<in> {..<b}"
  then have a: "a < b" by simp
  have "s' ! a = take b s' ! a" using a by simp
  also have "\<dots> = s ! a" using a assms(3) by simp
  finally have eq: "s' ! a = s ! a" .
  have "old_props b (props (take b s ! a))"
    using assms(1,2) a by (simp add: closed_store_iff)
  then have "\<forall>kv \<in> set (props (s ! a)). within {..<b} (snd kv)"
    using a by (auto simp: old_props_def list_all_iff old_val_def within_def split: val.splits)
  with a eq assms(2,4)
  show "a < length s \<and> a < length s' \<and> s' ! a = s ! a
          \<and> (\<forall>kv \<in> set (props (s ! a)). within {..<b} (snd kv))"
    by simp
qed

lemma region_fresh:
  assumes "fresh_closed b s" and "length s \<le> length s'"
    and "\<forall>a. b \<le> a \<and> a < length s \<longrightarrow> s' ! a = s ! a"
  shows "region_ok {b ..< length s} s s'"
  unfolding region_ok_def
proof
  fix a assume "a \<in> {b ..< length s}"
  then have a: "b \<le> a" "a < length s" by simp_all
  with assms(1) have "fresh_props b s (props (s ! a))" by (simp add: fresh_closed_iff)
  then have "\<forall>kv \<in> set (props (s ! a)). within {b ..< length s} (snd kv)"
    by (auto simp: fresh_props_def list_all_iff fresh_val_def within_def split: val.splits)
  with a assms(2,3)
  show "a < length s \<and> a < length s' \<and> s' ! a = s ! a
          \<and> (\<forall>kv \<in> set (props (s ! a)). within {b ..< length s} (snd kv))"
    by simp
qed

lemma doc_of_old_eq:
  assumes "closed_store (take b s)" and "b \<le> length s" and "take b s' = take b s"
    and "b \<le> length s'" and "old_val b v"
  shows "doc_of m s' v = doc_of m s v"
  using doc_of_region [OF region_old [OF assms(1-4)], of v m] assms(5)
  by (simp add: within_def old_val_def split: val.splits)

lemma doc_of_fresh_eq:
  assumes "fresh_closed b s" and "length s \<le> length s'"
    and "\<forall>a. b \<le> a \<and> a < length s \<longrightarrow> s' ! a = s ! a" and "fresh_val b s v"
  shows "doc_of m s' v = doc_of m s v"
  using doc_of_region [OF region_fresh [OF assms(1-3)], of v m] assms(4)
  by (simp add: within_def fresh_val_def split: val.splits)

lemma clone_all_docs:
  assumes IH: "\<forall>s v s' v' m. closed_store s \<longrightarrow> cloneDeep n s v = Some (s', v')
                  \<longrightarrow> doc_of m s' v' = doc_of m s v"
    and s0: "closed_store s0"
  shows "closed_store (s0 @ y) \<Longrightarrow> old_props (length s0) ps0
     \<Longrightarrow> clone_all (cloneDeep n) (s0 @ y) ps0 = Some (s1, ps)
     \<Longrightarrow> docs_of (doc_of m (s1 @ x)) ps = docs_of (doc_of m s0) ps0"
proof (induction ps0 arbitrary: y ps)
  case Nil
  then show ?case by simp
next
  case (Cons kv rest)
  obtain k v where kv: "kv = (k, v)" by (cases kv)
  let ?s = "s0 @ y"
  from Cons.prems(3) kv obtain sa va rest'
    where a: "cloneDeep n ?s v = Some (sa, va)"
      and r: "clone_all (cloneDeep n) sa rest = Some (s1, rest')"
      and ps: "ps = (k, va) # rest'"
    by (auto split: option.splits)
  from cloneDeep_closed [OF a] obtain z where sa: "sa = ?s @ z"
    and fv: "fresh_val (length ?s) sa va" and fc: "fresh_closed (length ?s) sa"
    by blast
  from clone_all_cloneDeep_prefix [OF r] obtain z' where s1: "s1 = sa @ z'" by blast
  have csa: "closed_store sa" using cloneDeep_closed_store [OF Cons.prems(1) a] .
  from Cons.prems(2) kv have ov: "old_val (length s0) v" and orest: "old_props (length s0) rest"
    by (simp_all add: old_props_def)
  have "doc_of m (s1 @ x) va = doc_of m sa va"
    by (rule doc_of_fresh_eq [OF fc _ _ fv]) (simp_all add: s1 nth_append)
  also have "\<dots> = doc_of m ?s v"
    using IH Cons.prems(1) a by blast
  also have "\<dots> = doc_of m s0 v"
    by (rule doc_of_old_eq [OF _ _ _ _ ov]) (simp_all add: s0)
  finally have hd: "doc_of m (s1 @ x) va = doc_of m s0 v" .
  have "docs_of (doc_of m (s1 @ x)) rest' = docs_of (doc_of m s0) rest"
    using Cons.IH [of "y @ z" rest'] csa orest r sa by simp
  with hd show ?case by (simp add: ps kv split: option.splits)
qed

lemma cloneDeep_docs:
  "closed_store s \<Longrightarrow> cloneDeep n s v = Some (s', v') \<Longrightarrow> doc_of m s' v' = doc_of m s v"
proof (induction n arbitrary: s v s' v' m)
  case 0
  then show ?case by (cases v) auto
next
  case (Suc n)
  show ?case
  proof (cases v)
    case (VRef a)
    from Suc.prems(2) VRef obtain ob s1 ps
      where d: "deref s a = Some ob"
        and c: "clone_all (cloneDeep n) s (props ob) = Some (s1, ps)"
        and s': "s' = s1 @ [ob\<lparr>props := ps\<rparr>]" and v': "v' = VRef (length s1)"
      by (auto split: option.splits)
    show ?thesis
    proof (cases m)
      case 0
      then show ?thesis using VRef v' by simp
    next
      case (Suc m')
      have IH: "\<forall>s v s' v' m. closed_store s \<longrightarrow> cloneDeep n s v = Some (s', v')
                  \<longrightarrow> doc_of m s' v' = doc_of m s v"
        using Suc.IH by blast
      from d have a: "a < length s" "ob = s ! a" by (auto simp: deref_def split: if_splits)
      with Suc.prems(1) have op: "old_props (length s) (props ob)"
        by (simp add: closed_store_iff)
      have "docs_of (doc_of m' s') ps = docs_of (doc_of m' s) (props ob)"
        unfolding s'
        using clone_all_docs [OF IH Suc.prems(1), of "[]" "props ob" s1 ps m'] Suc.prems(1) op c
        by simp
      moreover have "deref s' (length s1) = Some (ob\<lparr>props := ps\<rparr>)"
        by (simp add: s' deref_def)
      ultimately show ?thesis
        using VRef v' d Suc by (simp split: option.splits)
    qed
  qed (use Suc.prems in auto)
qed


lemma docs_of_filter:
  "docs_of f ps = Some js
   \<Longrightarrow> docs_of f (filter (\<lambda>kv. P (fst kv)) ps) = Some (filter (\<lambda>kv. P (fst kv)) js)"
proof (induction ps arbitrary: js)
  case Nil
  then show ?case by simp
next
  case (Cons kv ps)
  obtain k v where kv: "kv = (k, v)" by (cases kv)
  from Cons.prems kv obtain j js' where "f v = Some j" "docs_of f ps = Some js'" "js = (k, j) # js'"
    by (auto split: option.splits)
  with Cons.IH [of js'] kv show ?case by simp
qed

lemma docs_of_keys: "docs_of f ps = Some js \<Longrightarrow> map fst js = map fst ps"
proof (induction ps arbitrary: js)
  case Nil
  then show ?case by simp
next
  case (Cons kv ps)
  obtain k v where kv: "kv = (k, v)" by (cases kv)
  from Cons.prems kv obtain j js' where "f v = Some j" "docs_of f ps = Some js'" "js = (k, j) # js'"
    by (auto split: option.splits)
  with Cons.IH [of js'] kv show ?case by simp
qed

lemma cloneDeep_root:
  assumes cs: "closed_store s" and cl: "cloneDeep n s (VRef a) = Some (s', v')"
  shows "\<exists>s1 ob ps y m. s' = s1 @ [ob\<lparr>props := ps\<rparr>] \<and> v' = VRef (length s1) \<and> s1 = s @ y
           \<and> closed_store s1 \<and> old_props (length s1) ps \<and> fresh_props (length s) s1 ps
           \<and> deref s a = Some ob \<and> n = Suc m
           \<and> clone_all (cloneDeep m) s (props ob) = Some (s1, ps)"
proof (cases n)
  case 0
  with cl show ?thesis by simp
next
  case (Suc m)
  with cl obtain ob s1 ps
    where d: "deref s a = Some ob"
      and c: "clone_all (cloneDeep m) s (props ob) = Some (s1, ps)"
      and s': "s' = s1 @ [ob\<lparr>props := ps\<rparr>]" and v': "v' = VRef (length s1)"
    by (auto split: option.splits)
  have IH: "\<forall>s v s' v'. cloneDeep m s v = Some (s', v')
                 \<longrightarrow> (\<exists>new. s' = s @ new) \<and> fresh_val (length s) s' v' \<and> fresh_closed (length s) s'"
    using cloneDeep_closed by blast
  from clone_all_closed [OF IH c] obtain y where s1: "s1 = s @ y"
    and fp: "fresh_props (length s) s1 ps" and fc: "fresh_closed (length s) s1"
    by blast
  have tk: "take (length s) s1 = s" and ln: "length s \<le> length s1" by (simp_all add: s1)
  have cs1: "closed_store s1"
    by (rule closed_from [of "length s"]) (simp_all only: tk cs ln fc)
  have op: "old_props (length s1) ps" using fp by (rule fresh_old_props)
  show ?thesis
    by (intro exI [of _ s1] exI [of _ ob] exI [of _ ps] exI [of _ y] exI [of _ m] conjI)
       (fact s' v' s1 cs1 op fp d Suc c)+
qed

lemma exportClassData_s_doc:
  assumes cs: "closed_store s1" and op: "old_props (length s1) ps"
    and nk: "kind ob \<noteq> ArrayObject"
    and ex: "exportClassData_s (s1 @ [ob\<lparr>props := ps\<rparr>]) (VRef (length s1)) = Some (s', d)"
    and doc: "doc_of m (s1 @ [ob\<lparr>props := ps\<rparr>]) (VRef (length s1)) = Some j"
  shows "doc_of m s' d = Some (strip_internal j)"
proof (cases m)
  case 0
  with doc show ?thesis by simp
next
  case (Suc m')
  let ?s = "s1 @ [ob\<lparr>props := ps\<rparr>]"
  let ?ps = "filter (\<lambda>kv. \<not> internal (fst kv)) ps"
  have dr: "deref ?s (length s1) = Some (ob\<lparr>props := ps\<rparr>)" by (simp add: deref_def)
  from ex dr have s': "s' = s1 @ [ob\<lparr>props := ?ps\<rparr>]" and d: "d = VRef (length s1)"
    by (auto simp: exportClassData_s_def)
  from doc Suc dr nk obtain js where js: "docs_of (doc_of m' ?s) ps = Some js" and j: "j = JObj js"
    by (auto split: option.splits)
  have same: "doc_of m' s' v = doc_of m' ?s v" if "v \<in> snd ` set ps" for v
  proof (rule doc_of_old_eq [of "length s1"])
    show "old_val (length s1) v" using op that by (auto simp: old_props_def list_all_iff)
  qed (simp_all add: cs s')
  have "docs_of (doc_of m' s') ps = docs_of (doc_of m' ?s) ps"
    by (rule docs_of_cong_on) (rule same)
  with js have "docs_of (doc_of m' s') ps = Some js" by simp
  from docs_of_filter [OF this, where P = "\<lambda>k. \<not> internal k"]
  have "docs_of (doc_of m' s') ?ps = Some (filter (\<lambda>kv. \<not> internal (fst kv)) js)" .
  moreover have "deref s' (length s1) = Some (ob\<lparr>props := ?ps\<rparr>)" by (simp add: s' deref_def)
  ultimately show ?thesis
    using Suc d j nk by (simp add: strip_internal_def)
qed

lemma Function_get_s_doc:
  assumes cs: "closed_store s" and run: "Function_get_s n s (VRef a) = Some (s', d)"
    and nk: "\<forall>ob. deref s a = Some ob \<longrightarrow> kind ob \<noteq> ArrayObject"
  shows "(\<exists>y. s' = s @ y) \<and> closed_store s' \<and> fresh_closed (length s) s'
       \<and> fresh_val (length s) s' d
       \<and> (\<forall>m j. doc_of m s (VRef a) = Some j \<longrightarrow> doc_of m s' d = Some (strip_internal j))"
proof -
  from run obtain s1 cl where cl: "cloneDeep n s (VRef a) = Some (s1, cl)"
    and ex: "exportClassData_s s1 cl = Some (s', d)"
    by (auto simp: Function_get_s_def split: option.splits)
  from cloneDeep_root [OF cs cl] obtain s2 ob ps y m
    where s1: "s1 = s2 @ [ob\<lparr>props := ps\<rparr>]" and clr: "cl = VRef (length s2)"
      and s2: "s2 = s @ y" and cs2: "closed_store s2" and op: "old_props (length s2) ps"
      and fp: "fresh_props (length s) s2 ps" and d0: "deref s a = Some ob"
    by blast
  from nk d0 have k: "kind ob \<noteq> ArrayObject" by simp
  let ?ps = "filter (\<lambda>kv. \<not> internal (fst kv)) ps"
  have dr: "deref s1 (length s2) = Some (ob\<lparr>props := ps\<rparr>)" by (simp add: s1 deref_def)
  from ex dr clr have s': "s' = s2 @ [ob\<lparr>props := ?ps\<rparr>]" and d: "d = VRef (length s2)"
    by (auto simp: exportClassData_s_def s1)
  from cloneDeep_closed [OF cl] have fc1: "fresh_closed (length s) s1" by blast
  have fc': "fresh_closed (length s) s'"
    unfolding fresh_closed_iff
  proof (intro allI impI)
    fix i assume i: "length s \<le> i \<and> i < length s'"
    show "fresh_props (length s) s' (props (s' ! i))"
    proof (cases "i < length s2")
      case True
      with i fc1 have "fresh_props (length s) s1 (props (s1 ! i))"
        by (simp add: fresh_closed_iff s1)
      moreover have "length s' = length s1" by (simp add: s' s1)
      moreover have "s' ! i = s1 ! i" using True by (simp add: s' s1 nth_append)
      ultimately show ?thesis
        using fresh_props_length [of s' s1] by simp
    next
      case False
      with i have "i = length s2" by (simp add: s')
      moreover have "fresh_props (length s) s' ps"
        using fresh_props_mono [OF fp, of "length s" s'] by (simp add: s')
      then have "fresh_props (length s) s' ?ps"
        by (auto simp: fresh_props_def list_all_iff)
      ultimately show ?thesis by (simp add: s')
    qed
  qed
  have tk: "take (length s) s' = s" by (simp add: s' s2)
  have ln: "length s \<le> length s'" by (simp add: s' s2)
  have cs': "closed_store s'"
    by (rule closed_from [of "length s"]) (simp_all only: tk cs ln fc')
  have fd: "fresh_val (length s) s' d"
    by (simp add: d s' s2 fresh_val_def)
  have docs: "doc_of m s' d = Some (strip_internal j)" if "doc_of m s (VRef a) = Some j" for m j
  proof -
    from cloneDeep_docs [OF cs cl, of m] that clr s1
    have "doc_of m (s2 @ [ob\<lparr>props := ps\<rparr>]) (VRef (length s2)) = Some j" by simp
    from exportClassData_s_doc [OF cs2 op k _ this] ex clr s1 show ?thesis by simp
  qed
  have app: "\<exists>y. s' = s @ y" using s' s2 by simp
  show ?thesis
  proof (intro conjI allI impI)
    fix m j assume "doc_of m s (VRef a) = Some j"
    then show "doc_of m s' d = Some (strip_internal j)" by (rule docs)
  qed (fact app cs' fc' fd)+
qed


lemma closed_store_update:
  assumes "closed_store s" and "old_props (length s) (props ob)"
  shows "closed_store (s[t := ob])"
  unfolding closed_store_iff
proof (intro allI impI)
  fix a assume "a < length (s[t := ob])"
  then have a: "a < length s" by simp
  show "old_props (length (s[t := ob])) (props (s[t := ob] ! a))"
  proof (cases "a = t")
    case True
    with a assms(2) show ?thesis by simp
  next
    case False
    with a assms(1) show ?thesis by (simp add: closed_store_iff)
  qed
qed

lemma old_props_update:
  "old_props b ps \<Longrightarrow> old_val b v \<Longrightarrow> old_props b (AList.update k v ps)"
  using set_alist_update [of k v ps] by (auto simp: old_props_def list_all_iff)

lemma get_children_docs:
  assumes s0: "closed_store s0"
  shows "closed_store s \<Longrightarrow> take (length s0) s = s0 \<Longrightarrow> length s0 \<le> target
     \<Longrightarrow> target < length s \<Longrightarrow> list_all (\<lambda>kv. plain_child s0 (snd kv)) ps
     \<Longrightarrow> get_children n s target ps = Some s'
     \<Longrightarrow> \<exists>R. length s \<le> length s' \<and> closed_store s'
            \<and> (\<forall>a < length s. a \<noteq> target \<longrightarrow> s' ! a = s ! a)
            \<and> kind (s' ! target) = kind (s ! target)
            \<and> props (s' ! target)
                = foldl (\<lambda>acc kd. AList.update (fst kd) (snd kd) acc) (props (s ! target)) R
            \<and> map fst R = map fst ps
            \<and> fresh_props (length s) s' R
            \<and> fresh_closed (length s) s'
            \<and> (\<forall>m js. docs_of (doc_of m s0) ps = Some js
                  \<longrightarrow> docs_of (doc_of m s') R
                        = Some (map (\<lambda>kj. (fst kj, strip_internal (snd kj))) js))"
proof (induction ps arbitrary: s)
  case Nil
  then have "s' = s" by simp
  then show ?case
    using Nil.prems(1)
    by (intro exI [of _ "[]"]) (simp add: fresh_props_def fresh_closed_def)
next
  case (Cons kv rest)
  obtain k v where kv: "kv = (k, v)" by (cases kv)
  from Cons.prems(5) kv obtain a where v: "v = VRef a" and a: "a < length s0"
    and ka: "kind (s0 ! a) \<noteq> ArrayObject" and prest: "list_all (\<lambda>kv. plain_child s0 (snd kv)) rest"
    by (auto simp: plain_child_def split: val.splits)
  from Cons.prems(6) kv v obtain s1 d ob
    where g: "Function_get_s n s (VRef a) = Some (s1, d)" and dt: "deref s1 target = Some ob"
      and run: "get_children n (s1[target := ob\<lparr>props := AList.update k d (props ob)\<rparr>])
                   target rest = Some s'"
    by (auto split: option.splits)
  have len0: "length s0 \<le> length s" using Cons.prems(3,4) by simp
  have sa: "s ! a = s0 ! a"
  proof -
    have "s ! a = take (length s0) s ! a" using a by simp
    then show ?thesis using Cons.prems(2) by simp
  qed
  have "deref s a = Some (s0 ! a)" using a len0 sa by (simp add: deref_def)
  then have nk: "\<forall>ob. deref s a = Some ob \<longrightarrow> kind ob \<noteq> ArrayObject" using ka by simp
  from Function_get_s_doc [OF Cons.prems(1) g nk] obtain y
    where s1: "s1 = s @ y" and cs1: "closed_store s1" and fc1: "fresh_closed (length s) s1"
      and fd: "fresh_val (length s) s1 d"
      and dd: "\<forall>m j. doc_of m s (VRef a) = Some j \<longrightarrow> doc_of m s1 d = Some (strip_internal j)"
    by blast
  let ?ob = "ob\<lparr>props := AList.update k d (props ob)\<rparr>"
  let ?s2 = "s1[target := ?ob]"
  have ob: "ob = s ! target"
    using dt Cons.prems(4) by (simp add: deref_def s1 nth_append split: if_splits)
  have tl1: "target < length s1" using Cons.prems(4) by (simp add: s1)
  have "old_props (length s1) (props ob)"
    using cs1 tl1 dt by (auto simp: closed_store_iff deref_def)
  moreover have "old_val (length s1) d"
    using fd by (cases d) (simp_all add: fresh_val_def old_val_def)
  ultimately have "old_props (length s1) (props ?ob)" by (simp add: old_props_update)
  from closed_store_update [OF cs1 this] have cs2: "closed_store ?s2" .
  have tk2: "take (length s0) ?s2 = s0"
    using Cons.prems(2,3) len0 by (simp add: s1)
  have tl2: "target < length ?s2" using tl1 by simp
  from Cons.IH [OF cs2 tk2 Cons.prems(3) tl2 prest run] obtain R
    where ih: "length ?s2 \<le> length s'" "closed_store s'"
      "\<forall>a < length ?s2. a \<noteq> target \<longrightarrow> s' ! a = ?s2 ! a"
      "kind (s' ! target) = kind (?s2 ! target)"
      "props (s' ! target)
         = foldl (\<lambda>acc kd. AList.update (fst kd) (snd kd) acc) (props (?s2 ! target)) R"
      "map fst R = map fst rest"
      "fresh_props (length ?s2) s' R"
      "fresh_closed (length ?s2) s'"
      "\<forall>m js. docs_of (doc_of m s0) rest = Some js
           \<longrightarrow> docs_of (doc_of m s') R = Some (map (\<lambda>kj. (fst kj, strip_internal (snd kj))) js)"
    by blast
  have len: "length s \<le> length s1" "length s1 \<le> length s'"
    using ih(1) by (simp_all add: s1)
  have keep1: "s' ! i = s1 ! i" if "i < length s1" "i \<noteq> target" for i
    using ih(3) that by simp
  have frame: "\<forall>i < length s. i \<noteq> target \<longrightarrow> s' ! i = s ! i"
  proof (intro allI impI)
    fix i assume i: "i < length s" "i \<noteq> target"
    then have "s' ! i = s1 ! i" using keep1 len(1) by simp
    also have "\<dots> = s ! i" using i by (simp add: s1 nth_append)
    finally show "s' ! i = s ! i" .
  qed
  have knd: "kind (s' ! target) = kind (s ! target)"
    using ih(4) tl1 ob by simp
  have prp: "props (s' ! target)
      = foldl (\<lambda>acc kd. AList.update (fst kd) (snd kd) acc) (props (s ! target)) ((k, d) # R)"
    using ih(5) tl1 ob by simp
  have keys: "map fst ((k, d) # R) = map fst (kv # rest)" using ih(6) kv by simp
  have fd': "fresh_val (length s) s' d" using fd len(2) by (auto intro: fresh_val_mono)
  have "fresh_props (length s) s' R"
    using fresh_props_mono [OF ih(7), of "length s" s'] len(1) by simp
  with fd' have fR: "fresh_props (length s) s' ((k, d) # R)" by (simp add: fresh_props_def)
  have fc: "fresh_closed (length s) s'"
    unfolding fresh_closed_iff
  proof (intro allI impI)
    fix i assume i: "length s \<le> i \<and> i < length s'"
    show "fresh_props (length s) s' (props (s' ! i))"
    proof (cases "i < length s1")
      case True
      with i Cons.prems(4) have "s' ! i = s1 ! i" by (intro keep1) simp_all
      moreover have "fresh_props (length s) s1 (props (s1 ! i))"
        using fc1 i True by (simp add: fresh_closed_iff)
      ultimately show ?thesis
        using fresh_props_mono [of "length s" s1 _ "length s" s'] len(2) by simp
    next
      case False
      with i ih(8) have "fresh_props (length ?s2) s' (props (s' ! i))"
        by (simp add: fresh_closed_iff)
      then show ?thesis
        using fresh_props_mono [of "length ?s2" s' _ "length s" s'] len(1) by simp
    qed
  qed
  have docs: "docs_of (doc_of m s') ((k, d) # R)
                = Some (map (\<lambda>kj. (fst kj, strip_internal (snd kj))) js)"
    if "docs_of (doc_of m s0) (kv # rest) = Some js" for m js
  proof -
    from that kv v obtain j js' where j: "doc_of m s0 (VRef a) = Some j"
      and js': "docs_of (doc_of m s0) rest = Some js'" and js: "js = (k, j) # js'"
      by (auto split: option.splits)
    have "doc_of m s (VRef a) = doc_of m s0 (VRef a)"
      by (rule doc_of_old_eq [of "length s0"])
         (simp_all add: s0 Cons.prems(2) len0 a old_val_def)
    with j dd have "doc_of m s1 d = Some (strip_internal j)" by simp
    moreover have "doc_of m s' d = doc_of m s1 d"
    proof (rule doc_of_fresh_eq [OF fc1 len(2) _ fd])
      show "\<forall>i. length s \<le> i \<and> i < length s1 \<longrightarrow> s' ! i = s1 ! i"
        using keep1 Cons.prems(4) by auto
    qed
    ultimately have "doc_of m s' d = Some (strip_internal j)" by simp
    moreover from ih(9) js'
    have "docs_of (doc_of m s') R = Some (map (\<lambda>kj. (fst kj, strip_internal (snd kj))) js')"
      by blast
    ultimately show ?thesis by (simp add: js)
  qed
  show ?case
  proof (intro exI [of _ "(k, d) # R"] conjI allI impI)
    show "length s \<le> length s'" using len by simp
    show "closed_store s'" by (fact ih(2))
    show "kind (s' ! target) = kind (s ! target)" by (fact knd)
    show "map fst ((k, d) # R) = map fst (kv # rest)" by (fact keys)
    show "fresh_props (length s) s' ((k, d) # R)" by (fact fR)
    show "fresh_closed (length s) s'" by (fact fc)
    show "props (s' ! target)
      = foldl (\<lambda>acc kd. AList.update (fst kd) (snd kd) acc) (props (s ! target)) ((k, d) # R)"
      by (fact prp)
  next
    fix i assume "i < length s" "i \<noteq> target"
    then show "s' ! i = s ! i" using frame by simp
  next
    fix m js assume "docs_of (doc_of m s0) (kv # rest) = Some js"
    then show "docs_of (doc_of m s') ((k, d) # R)
                = Some (map (\<lambda>kj. (fst kj, strip_internal (snd kj))) js)"
      by (rule docs)
  qed
qed


lemma update_prefix:
  "k \<notin> fst ` set P \<Longrightarrow> AList.update k d (P @ (k, v) # T) = P @ (k, d) # T"
  by (induction P) auto

lemma foldl_update_all:
  "distinct (map fst (P @ T)) \<Longrightarrow> map fst R = map fst T
   \<Longrightarrow> foldl (\<lambda>acc kd. AList.update (fst kd) (snd kd) acc) (P @ T) R = P @ R"
proof (induction R arbitrary: P T)
  case Nil
  then show ?case by simp
next
  case (Cons kd R)
  obtain k d where kd: "kd = (k, d)" by (cases kd)
  from Cons.prems(2) kd obtain v T' where T: "T = (k, v) # T'" and keys: "map fst R = map fst T'"
    by (cases T) auto
  from Cons.prems(1) T have nk: "k \<notin> fst ` set P" by auto
  have d: "distinct (map fst ((P @ [(k, d)]) @ T'))" using Cons.prems(1) T by auto
  have "foldl (\<lambda>acc kd. AList.update (fst kd) (snd kd) acc) (P @ T) (kd # R)
        = foldl (\<lambda>acc kd. AList.update (fst kd) (snd kd) acc) ((P @ [(k, d)]) @ T') R"
    using update_prefix [OF nk, of d v T'] by (simp add: kd T)
  also have "\<dots> = (P @ [(k, d)]) @ R" using Cons.IH [OF d keys] .
  finally show ?case by (simp add: kd)
qed

lemma clone_all_keys: "clone_all f s ps = Some (s', ps') \<Longrightarrow> map fst ps' = map fst ps"
proof (induction ps arbitrary: s ps')
  case Nil
  then show ?case by simp
next
  case (Cons kv ps)
  obtain k v where kv: "kv = (k, v)" by (cases kv)
  from Cons.prems kv obtain s1 v' rest' where "clone_all f s1 ps = Some (s', rest')"
    and "ps' = (k, v') # rest'"
    by (auto split: option.splits)
  with Cons.IH [of s1 rest'] kv show ?case by simp
qed

lemma clone_all_split:
  "clone_all f s (B @ (k, v) # A) = Some (s', ps')
   \<Longrightarrow> \<exists>sB B' sF vF A'. clone_all f s B = Some (sB, B') \<and> f sB v = Some (sF, vF)
         \<and> clone_all f sF A = Some (s', A') \<and> ps' = B' @ (k, vF) # A'"
proof (induction B arbitrary: s ps')
  case Nil
  then show ?case by (auto split: option.splits)
next
  case (Cons kv B)
  obtain k0 v0 where kv: "kv = (k0, v0)" by (cases kv)
  from Cons.prems kv obtain s1 v0' rest'
    where h: "f s v0 = Some (s1, v0')"
      and r: "clone_all f s1 (B @ (k, v) # A) = Some (s', rest')"
      and ps': "ps' = (k0, v0') # rest'"
    by (auto split: option.splits)
  from Cons.IH [OF r] obtain sB B' sF vF A'
    where "clone_all f s1 B = Some (sB, B')" "f sB v = Some (sF, vF)"
      "clone_all f sF A = Some (s', A')" "rest' = B' @ (k, vF) # A'"
    by blast
  with h ps' kv show ?case by simp
qed

lemma clone_all_closed_store:
  assumes cs: "closed_store s" and c: "clone_all (cloneDeep n) s ps = Some (s', ps')"
  shows "(\<exists>y. s' = s @ y) \<and> closed_store s' \<and> fresh_props (length s) s' ps'
       \<and> fresh_closed (length s) s'"
proof -
  have IH: "\<forall>s v s' v'. cloneDeep n s v = Some (s', v')
                 \<longrightarrow> (\<exists>new. s' = s @ new) \<and> fresh_val (length s) s' v' \<and> fresh_closed (length s) s'"
    using cloneDeep_closed by blast
  from clone_all_closed [OF IH c] obtain y where s': "s' = s @ y"
    and fp: "fresh_props (length s) s' ps'" and fc: "fresh_closed (length s) s'"
    by blast
  have tk: "take (length s) s' = s" and ln: "length s \<le> length s'" by (simp_all add: s')
  have "closed_store s'"
    by (rule closed_from [of "length s"]) (simp_all only: tk cs ln fc)
  moreover have "\<exists>y. s' = s @ y" using s' by simp
  ultimately show ?thesis using fp fc by simp
qed

lemma docs_of_append:
  "docs_of f (B @ C)
   = (case docs_of f B of
        None \<Rightarrow> None
      | Some jB \<Rightarrow> (case docs_of f C of None \<Rightarrow> None | Some jC \<Rightarrow> Some (jB @ jC)))"
proof (induction B)
  case Nil
  then show ?case by (simp split: option.splits)
next
  case (Cons kv B)
  obtain k v where kv: "kv = (k, v)" by (cases kv)
  show ?case using Cons by (simp add: kv split: option.splits)
qed

lemma docs_of_entry:
  "docs_of f ps = Some js \<Longrightarrow> (k, j) \<in> set js \<Longrightarrow> \<exists>v. (k, v) \<in> set ps \<and> f v = Some j"
proof (induction ps arbitrary: js)
  case Nil
  then show ?case by simp
next
  case (Cons kv ps)
  obtain k0 v0 where kv: "kv = (k0, v0)" by (cases kv)
  from Cons.prems(1) kv obtain j0 js' where h: "f v0 = Some j0" and r: "docs_of f ps = Some js'"
    and js: "js = (k0, j0) # js'"
    by (auto split: option.splits)
  show ?case
  proof (cases "(k, j) = (k0, j0)")
    case True
    with h kv show ?thesis by auto
  next
    case False
    with Cons.prems(2) js have "(k, j) \<in> set js'" by auto
    from Cons.IH [OF r this] show ?thesis by auto
  qed
qed

lemma map_of_split:
  "map_of ps k = Some v \<Longrightarrow> \<exists>B A. ps = B @ (k, v) # A \<and> k \<notin> fst ` set B"
proof (induction ps)
  case Nil
  then show ?case by simp
next
  case (Cons kv ps)
  obtain k0 v0 where kv: "kv = (k0, v0)" by (cases kv)
  show ?case
  proof (cases "k0 = k")
    case True
    with Cons.prems kv have "kv # ps = [] @ (k, v) # ps" by simp
    then show ?thesis by (intro exI [of _ "[]"] exI [of _ ps]) simp
  next
    case False
    with Cons kv obtain B A where "ps = B @ (k, v) # A" "k \<notin> fst ` set B" by auto
    with False kv have "kv # ps = (kv # B) @ (k, v) # A \<and> k \<notin> fst ` set (kv # B)" by auto
    then show ?thesis by blast
  qed
qed


lemma clone_all_docs_eq:
  "closed_store s0 \<Longrightarrow> closed_store (s0 @ y) \<Longrightarrow> old_props (length s0) ps0
   \<Longrightarrow> clone_all (cloneDeep n) (s0 @ y) ps0 = Some (s1, ps)
   \<Longrightarrow> docs_of (doc_of m (s1 @ x)) ps = docs_of (doc_of m s0) ps0"
proof -
  assume a: "closed_store s0" "closed_store (s0 @ y)" "old_props (length s0) ps0"
    "clone_all (cloneDeep n) (s0 @ y) ps0 = Some (s1, ps)"
  have IH: "\<forall>s v s' v' m. closed_store s \<longrightarrow> cloneDeep n s v = Some (s', v')
                  \<longrightarrow> doc_of m s' v' = doc_of m s v"
    using cloneDeep_docs by blast
  from clone_all_docs [OF IH a] show ?thesis .
qed

lemma map_of_prefix: "k \<notin> fst ` set P \<Longrightarrow> map_of (P @ (k, v) # T) k = Some v"
  by (induction P) auto

lemma doc_of_prim:
  "(\<And>a. v \<noteq> VRef a) \<Longrightarrow> \<exists>j. doc_of m st v = Some j \<and> export_children j = j"
  by (cases m; cases v) (auto simp: export_children_def)

lemma snapshot_plain:
  assumes "docs_of f ps = Some kvs" and "distinct (map fst ps)"
    and "\<forall>v. map_of ps ''functions'' = Some v \<longrightarrow> (\<exists>j. f v = Some j \<and> export_children j = j)"
  shows "snapshot (JObj kvs) = strip_internal (JObj kvs)"
proof -
  have "(fst kv, if fst kv = ''functions'' then export_children (snd kv) else snd kv) = kv"
    if "kv \<in> set kvs" for kv
  proof (cases "fst kv = ''functions''")
    case True
    then have "kv = (''functions'', snd kv)" by (cases kv) simp
    with that have "(''functions'', snd kv) \<in> set kvs" by simp
    from docs_of_entry [OF assms(1) this] obtain v
      where v: "(''functions'', v) \<in> set ps" "f v = Some (snd kv)"
      by blast
    from v(1) assms(2) have "map_of ps ''functions'' = Some v" by simp
    with assms(3) v(2) have "export_children (snd kv) = snd kv" by auto
    with True show ?thesis by (cases kv) auto
  next
    case False
    then show ?thesis by simp
  qed
  then have "map (\<lambda>kv. (fst kv, if fst kv = ''functions'' then export_children (snd kv) else snd kv)) kvs
             = kvs"
    by (intro map_idI)
  then show ?thesis by (simp add: snapshot_def strip_internal_def)
qed

lemma snapshot_split:
  assumes "''functions'' \<notin> fst ` set jB" and "''functions'' \<notin> fst ` set jA"
  shows "snapshot (JObj (jB @ (''functions'', jf) # jA))
         = JObj (filter (\<lambda>kv. \<not> internal (fst kv)) (jB @ (''functions'', export_children jf) # jA))"
proof -
  let ?g = "\<lambda>kv. (fst kv, if fst kv = ''functions'' then export_children (snd kv) else snd kv)"
  have "map ?g jB = jB" using assms(1) by (intro map_idI) force
  moreover have "map ?g jA = jA" using assms(2) by (intro map_idI) force
  ultimately show ?thesis by (simp add: snapshot_def)
qed


lemma get_s_doc:
  assumes cs: "closed_store st" and doc: "doc_of n st (VRef this) = Some j"
    and shape: "module_shape st this" and run: "get_s n st this = Some (st1, d)"
  shows "doc_of n st1 d = Some (snapshot j)"
proof -
  from doc obtain n1 where n: "n = Suc n1" by (cases n) auto
  from shape obtain tob where dt: "deref st this = Some tob" and kt: "kind tob \<noteq> ArrayObject"
    and dk: "distinct (map fst (props tob))"
    by (auto simp: module_shape_def split: option.splits)
  from doc n dt kt obtain kvs where kvs: "docs_of (doc_of n1 st) (props tob) = Some kvs"
    and j: "j = JObj kvs"
    by (auto split: option.splits)
  from run obtain s1 clone where cl: "cloneDeep n st (VRef this) = Some (s1, clone)"
    by (auto simp: get_s_def split: option.splits)
  from cloneDeep_root [OF cs cl] dt n obtain s1' ps' y
    where s1: "s1 = s1' @ [tob\<lparr>props := ps'\<rparr>]" and clone: "clone = VRef (length s1')"
      and s1': "s1' = st @ y" and cs1': "closed_store s1'" and op': "old_props (length s1') ps'"
      and ca: "clone_all (cloneDeep n1) st (props tob) = Some (s1', ps')"
    by auto
  define c where "c = length s1'"
  from dt have this_lt: "this < length st" and tob: "tob = st ! this"
    by (auto simp: deref_def split: if_splits)
  have otob: "old_props (length st) (props tob)"
    using cs this_lt tob by (simp add: closed_store_iff)
  have nth1: "s1 ! a = st ! a" if "a < length st" for a
    using that by (simp add: s1 s1' nth_append)
  have f1: "field s1 this ''functions'' = map_of (props tob) ''functions''"
    using this_lt nth1 [OF this_lt] tob by (simp add: field_def deref_def s1 s1')
  have cs1: "closed_store s1" using cloneDeep_closed_store [OF cs cl] .
  have docc: "doc_of n s1 (VRef c) = Some j"
    using cloneDeep_docs [OF cs cl, of n] doc clone by (simp add: c_def)
  show ?thesis
  proof (cases "\<exists>fm. map_of (props tob) ''functions'' = Some (VRef fm)")
    case False
    from run cl clone f1 False have ex: "exportClassData_s s1 (VRef c) = Some (st1, d)"
      by (auto simp: get_s_def c_def split: option.splits val.splits if_splits)
    from exportClassData_s_doc [OF cs1' op' kt, of st1 d n j] ex docc
    have "doc_of n st1 d = Some (strip_internal j)" by (simp add: s1 c_def)
    moreover have "snapshot j = strip_internal j"
      unfolding j
    proof (rule snapshot_plain [OF kvs dk], intro allI impI)
      fix v assume "map_of (props tob) ''functions'' = Some v"
      with False have "\<And>a. v \<noteq> VRef a" by auto
      then show "\<exists>j. doc_of n1 st v = Some j \<and> export_children j = j" by (rule doc_of_prim)
    qed
    ultimately show ?thesis by simp
  next
    case True
    then obtain fm where mf: "map_of (props tob) ''functions'' = Some (VRef fm)" by blast
    from shape dt mf obtain fobj where dfm: "deref st fm = Some fobj"
      and kf: "kind fobj \<noteq> ArrayObject" and dkf: "distinct (map fst (props fobj))"
      and pc: "list_all (\<lambda>kv. plain_child st (snd kv)) (props fobj)"
      by (auto simp: module_shape_def split: option.splits)
    from dfm have fm_lt: "fm < length st" and fobj: "fobj = st ! fm"
      by (auto simp: deref_def split: if_splits)
    from map_of_split [OF mf] obtain B A
      where split: "props tob = B @ (''functions'', VRef fm) # A"
        and nB: "''functions'' \<notin> fst ` set B"
      by blast
    from dk split have nA: "''functions'' \<notin> fst ` set A" by auto
    from otob split have oB: "old_props (length st) B" and oA: "old_props (length st) A"
      by (simp_all add: old_props_def)
    from clone_all_split [of "cloneDeep n1" st B "''functions''" "VRef fm" A s1' ps'] ca split
    obtain sB B' sF vF A'
      where cB: "clone_all (cloneDeep n1) st B = Some (sB, B')"
        and cF: "cloneDeep n1 sB (VRef fm) = Some (sF, vF)"
        and cA: "clone_all (cloneDeep n1) sF A = Some (s1', A')"
        and ps': "ps' = B' @ (''functions'', vF) # A'"
      by auto
    from clone_all_closed_store [OF cs cB] obtain yB where sB: "sB = st @ yB"
      and csB: "closed_store sB" and fB: "fresh_props (length st) sB B'"
      by blast
    from cloneDeep_root [OF csB cF] obtain sF' fob fps yF n2
      where sF: "sF = sF' @ [fob\<lparr>props := fps\<rparr>]" and vF: "vF = VRef (length sF')"
        and sF': "sF' = sB @ yF" and dfB: "deref sB fm = Some fob" and n1: "n1 = Suc n2"
        and cfp: "clone_all (cloneDeep n2) sB (props fob) = Some (sF', fps)"
      by blast
    have fob: "fob = fobj"
      using dfB fm_lt fobj by (simp add: deref_def sB nth_append)
    define target where "target = length sF'"
    have csF: "closed_store sF" using cloneDeep_closed_store [OF csB cF] .
    from clone_all_closed_store [OF csF cA] obtain yA where s1'A: "s1' = sF @ yA"
      and fA: "fresh_props (length sF) s1' A'" and fcA: "fresh_closed (length sF) s1'"
      by blast
    have lens: "length st \<le> length sB" "length sB \<le> target" "target < length sF"
      "length sF \<le> c" "c < length s1" "length s1 = Suc c"
      by (simp_all add: sB target_def sF' sF c_def s1'A s1)
    have keysB: "map fst B' = map fst B" using clone_all_keys [OF cB] .
    have "''functions'' \<notin> fst ` set B'"
    proof -
      have "fst ` set B' = set (map fst B')" by simp
      also have "\<dots> = fst ` set B" using keysB by simp
      finally show ?thesis using nB by simp
    qed
    then have mt: "map_of ps' ''functions'' = Some (VRef target)"
      unfolding ps' vF target_def by (rule map_of_prefix)
    have s1c: "s1 ! c = tob\<lparr>props := ps'\<rparr>" by (simp add: s1 c_def)
    have f2: "field s1 c ''functions'' = Some (VRef target)"
      using lens(5) s1c mt by (simp add: field_def deref_def)
    have dfm1: "deref s1 fm = Some fobj"
      using fm_lt nth1 [OF fm_lt] fobj by (simp add: deref_def s1 s1')
    from run cl clone f1 mf dfm1 f2 obtain s2
      where gc: "get_children n s1 target (props fobj) = Some s2"
        and ex: "exportClassData_s s2 (VRef c) = Some (st1, d)"
      by (auto simp: get_s_def c_def split: option.splits)
    have tk1: "take (length st) s1 = st" by (simp add: s1 s1')
    have tg1: "length st \<le> target" "target < length s1" using lens by simp_all
    from get_children_docs [OF cs cs1 tk1 tg1 pc gc] obtain R
      where g: "length s1 \<le> length s2" "closed_store s2"
        "\<forall>a < length s1. a \<noteq> target \<longrightarrow> s2 ! a = s1 ! a"
        "kind (s2 ! target) = kind (s1 ! target)"
        "props (s2 ! target)
           = foldl (\<lambda>acc kd. AList.update (fst kd) (snd kd) acc) (props (s1 ! target)) R"
        "map fst R = map fst (props fobj)"
        "fresh_props (length s1) s2 R"
        "fresh_closed (length s1) s2"
        "\<forall>m js. docs_of (doc_of m st) (props fobj) = Some js
           \<longrightarrow> docs_of (doc_of m s2) R = Some (map (\<lambda>kj. (fst kj, strip_internal (snd kj))) js)"
      by blast
    have s1t: "s1 ! target = fobj\<lparr>props := fps\<rparr>"
      using lens by (simp add: s1 s1'A sF nth_append target_def fob)
    have keysf: "map fst fps = map fst (props fobj)" using clone_all_keys [OF cfp] fob by simp
    have R: "props (s2 ! target) = R"
      using foldl_update_all [of "[]" fps R] g(5,6) keysf dkf s1t by simp
    have kR: "kind (s2 ! target) = kind fobj" using g(4) s1t by simp
    have ct: "c \<noteq> target" using lens by simp
    have s2c: "s2 ! c = tob\<lparr>props := ps'\<rparr>" using g(3) lens(5) ct s1c by simp
    have c2: "c < length s2" using g(1) lens(5) by simp
    let ?ps = "filter (\<lambda>kv. \<not> internal (fst kv)) ps'"
    from ex c2 s2c have st1: "st1 = s2[c := tob\<lparr>props := ?ps\<rparr>]" and d: "d = VRef c"
      by (auto simp: exportClassData_s_def deref_def)
    have len1: "length st1 = length s2" by (simp add: st1)
    have keep: "st1 ! a = s2 ! a" if "a \<noteq> c" for a using that by (simp add: st1)
    have keep1: "st1 ! a = s1 ! a" if "a < length s1" "a \<noteq> c" "a \<noteq> target" for a
      using that keep g(3) by simp
    from kvs split obtain jB jf jA
      where jB: "docs_of (doc_of n1 st) B = Some jB"
        and jf: "doc_of n1 st (VRef fm) = Some jf"
        and jA: "docs_of (doc_of n1 st) A = Some jA"
        and kvs': "kvs = jB @ (''functions'', jf) # jA"
      by (auto simp: docs_of_append split: option.splits)
    have tkB: "take (length sB) st1 = sB"
    proof (rule nth_equalityI)
      show "length (take (length sB) st1) = length sB"
        using lens len1 g(1) by simp
    next
      fix i assume "i < length (take (length sB) st1)"
      then have i: "i < length sB" by simp
      with lens have "st1 ! i = s1 ! i" by (intro keep1) simp_all
      also have "\<dots> = sB ! i" using i by (simp add: s1 s1'A sF sF' nth_append)
      finally show "take (length sB) st1 ! i = sB ! i" using i by simp
    qed
    have "docs_of (doc_of n1 (sB @ drop (length sB) st1)) B' = docs_of (doc_of n1 st) B"
      using clone_all_docs_eq [of st "[]" B n1 sB B'] cs oB cB by simp
    moreover have "sB @ drop (length sB) st1 = st1"
      using append_take_drop_id [of "length sB" st1] tkB by simp
    ultimately have dB: "docs_of (doc_of n1 st1) B' = Some jB" using jB by simp
    have "docs_of (doc_of n1 (s1' @ [])) A' = docs_of (doc_of n1 st) A"
    proof (rule clone_all_docs_eq [where y = "yB @ yF @ [fob\<lparr>props := fps\<rparr>]" and n = n1])
      show "clone_all (cloneDeep n1) (st @ yB @ yF @ [fob\<lparr>props := fps\<rparr>]) A = Some (s1', A')"
        using cA by (simp add: sF sF' sB)
      show "closed_store (st @ yB @ yF @ [fob\<lparr>props := fps\<rparr>])"
        using csF by (simp add: sF sF' sB)
    qed (fact cs oA)+
    then have dA0: "docs_of (doc_of n1 s1') A' = Some jA" using jA by simp
    have agreeA: "\<forall>a. length sF \<le> a \<and> a < length s1' \<longrightarrow> st1 ! a = s1' ! a"
    proof (intro allI impI)
      fix a assume a: "length sF \<le> a \<and> a < length s1'"
      with lens have "st1 ! a = s1 ! a" by (intro keep1) (simp_all add: c_def)
      also have "\<dots> = s1' ! a" using a by (simp add: s1 nth_append)
      finally show "st1 ! a = s1' ! a" .
    qed
    have "docs_of (doc_of n1 st1) A' = docs_of (doc_of n1 s1') A'"
    proof (rule docs_of_cong_on)
      fix v assume "v \<in> snd ` set A'"
      with fA have fv: "fresh_val (length sF) s1' v" by (auto simp: fresh_props_def list_all_iff)
      show "doc_of n1 st1 v = doc_of n1 s1' v"
        by (rule doc_of_fresh_eq [OF fcA _ agreeA fv]) (use len1 g(1) lens in \<open>simp add: c_def\<close>)
    qed
    with dA0 have dA: "docs_of (doc_of n1 st1) A' = Some jA" by simp
    from jf n1 dfm kf obtain fjs where fjs: "docs_of (doc_of n2 st) (props fobj) = Some fjs"
      and jf': "jf = JObj fjs"
      by (auto split: option.splits)
    from g(9) fjs
    have dR2: "docs_of (doc_of n2 s2) R = Some (map (\<lambda>kj. (fst kj, strip_internal (snd kj))) fjs)"
      by blast
    have agreeR: "\<forall>a. length s1 \<le> a \<and> a < length s2 \<longrightarrow> st1 ! a = s2 ! a"
      using keep lens by simp
    have "docs_of (doc_of n2 st1) R = docs_of (doc_of n2 s2) R"
    proof (rule docs_of_cong_on)
      fix v assume "v \<in> snd ` set R"
      with g(7) have fv: "fresh_val (length s1) s2 v" by (auto simp: fresh_props_def list_all_iff)
      show "doc_of n2 st1 v = doc_of n2 s2 v"
        by (rule doc_of_fresh_eq [OF g(8) _ agreeR fv]) (simp add: len1)
    qed
    with dR2
    have dR: "docs_of (doc_of n2 st1) R = Some (map (\<lambda>kj. (fst kj, strip_internal (snd kj))) fjs)"
      by simp
    have "deref st1 target = Some (s2 ! target)"
      using keep [of target] ct tg1(2) g(1) len1 by (simp add: deref_def)
    with dR R kR kf n1 have dT: "doc_of n1 st1 (VRef target) = Some (export_children jf)"
      by (simp add: jf' export_children_def)
    from dB dT dA
    have "docs_of (doc_of n1 st1) ps' = Some (jB @ (''functions'', export_children jf) # jA)"
      by (simp add: ps' vF target_def docs_of_append)
    from docs_of_filter [OF this, where P = "\<lambda>k. \<not> internal k"]
    have "docs_of (doc_of n1 st1) ?ps
          = Some (filter (\<lambda>kv. \<not> internal (fst kv)) (jB @ (''functions'', export_children jf) # jA))" .
    moreover have "deref st1 c = Some (tob\<lparr>props := ?ps\<rparr>)"
      using c2 by (simp add: st1 deref_def)
    ultimately have "doc_of n st1 d
          = Some (JObj (filter (\<lambda>kv. \<not> internal (fst kv))
                          (jB @ (''functions'', export_children jf) # jA)))"
      using kt by (simp add: n d)
    moreover have "''functions'' \<notin> fst ` set jB"
    proof -
      have "fst ` set jB = set (map fst jB)" by simp
      also have "\<dots> = fst ` set B" using docs_of_keys [OF jB] by simp
      finally show ?thesis using nB by simp
    qed
    moreover have "''functions'' \<notin> fst ` set jA"
    proof -
      have "fst ` set jA = set (map fst jA)" by simp
      also have "\<dots> = fst ` set A" using docs_of_keys [OF jA] by simp
      finally show ?thesis using nA by simp
    qed
    ultimately show ?thesis
      by (simp add: j kvs' snapshot_split)
  qed
qed

text \<open>
  The store model and the value model of \<^verbatim>\<open>get\<close> agree on the example: the document
  returned for the entity in the example store is the one \<open>get\<close> computes for the same
  entity as a value.
\<close>

lemma get_s_agrees_with_get_example:
  "map_option (\<lambda>r. doc_of 5 (fst r) (snd r)) (get_s 5 example_store 6)
     = Some (Some (get (example_context Early) example_entity))"
  by code_simp

lemma module_shape_children:
  assumes "module_shape st this"
  shows "children_are_objects st this"
proof -
  from assms obtain tob where dt: "deref st this = Some tob"
    by (auto simp: module_shape_def split: option.splits)
  show ?thesis
  proof (cases "map_of (props tob) ''functions''")
    case None
    with dt show ?thesis by (simp add: children_are_objects_def field_def)
  next
    case (Some v)
    show ?thesis
    proof (cases v)
      case (VRef fm)
      with assms dt Some obtain fobj where "deref st fm = Some fobj"
        and "list_all (\<lambda>kv. plain_child st (snd kv)) (props fobj)"
        by (auto simp: module_shape_def split: option.splits)
      then show ?thesis
        using dt Some VRef
        by (auto simp: children_are_objects_def field_def plain_child_def list_all_iff
                 split: val.splits)
    qed (use assms dt Some in \<open>simp_all add: children_are_objects_def field_def module_shape_def\<close>)
  qed
qed

text \<open>
  C4.  Let the store be closed, and let the entity at \<open>this\<close> have the shape of a module
  entity and denote a document \<open>j\<close> within the depth \<open>n\<close> (its object graph is finite and
  acyclic).  Then \<^verbatim>\<open>get()\<close> returns; it leaves every existing object as it was; the
  object it returns and every object reachable from it were allocated by this call and
  refer to such objects only, so that the result shares no object with the live entity;
  the document returned is the state of the entity, \<open>snapshot j\<close>; and whatever
  properties a caller then assigns or deletes on any of the objects allocated by the
  call, a subsequent \<^verbatim>\<open>get()\<close> on the entity returns that same document.
\<close>

theorem get_returns_independent_copy:
  assumes "closed_store st" and "doc_of n st (VRef this) = Some j"
    and "module_shape st this"
  shows "\<exists>st1 c. get_s n st this = Some (st1, VRef c)
     \<and> take (length st) st1 = st
     \<and> length st \<le> c \<and> c < length st1 \<and> fresh_closed (length st) st1
     \<and> doc_of n st1 (VRef c) = Some (snapshot j)
     \<and> (\<forall>ws. list_all (\<lambda>w. length st \<le> fst w) ws \<longrightarrow>
           (\<exists>st3 d'. get_s n (assignments st1 ws) this = Some (st3, d')
               \<and> doc_of n st3 d' = Some (snapshot j)))"
proof -
  have children: "children_are_objects st this"
    using assms(3) by (rule module_shape_children)
  from get_s_returns [OF assms(1,2) children] obtain st1 d
    where run: "get_s n st this = Some (st1, d)"
    by blast
  from get_s_all [OF assms(1) run, of "[]"] obtain c
    where d: "d = VRef c" and c: "length st \<le> c" "c < length st1"
      and fr: "take (length st) st1 = st" and fc: "fresh_closed (length st) st1"
    by blast
  have doc: "doc_of n st1 (VRef c) = Some (snapshot j)"
    using get_s_doc [OF assms run] d by simp
  have w1: "old_closed (length st) st1"
    using assms(1) fr c by (simp add: old_closed_def)
  have again: "\<exists>st3 d'. get_s n (assignments st1 ws) this = Some (st3, d')
               \<and> doc_of n st3 d' = Some (snapshot j)"
    if "list_all (\<lambda>w. length st \<le> fst w) ws" for ws
  proof -
    define t where "t = drop (length st) (assignments st1 ws)"
    from assignments_frame [OF that, of st1] fr have "take (length st) (assignments st1 ws) = st"
      by simp
    then have st2: "assignments st1 ws = st @ t"
      unfolding t_def by (metis append_take_drop_id)
    from get_s_all [OF assms(1) run, of t] d
    have "get_s n (st @ t) this = Some (ins (length st) t st1, VRef (c + length t))"
      by auto
    moreover have "doc_of n (ins (length st) t st1) (VRef (c + length t)) = doc_of n st1 (VRef c)"
      using doc_of_ins [OF w1, of n t "VRef c"] c(1) by (simp add: lift_fresh)
    ultimately show ?thesis
      using st2 doc by simp
  qed
  show ?thesis
    using run d c fr fc doc again by blast
qed

theorem get_returns_independent_copy_witness:
  "\<exists>st1 c. get_s 5 example_store 6 = Some (st1, VRef c)
     \<and> take 7 st1 = example_store
     \<and> doc_of 5 st1 (VRef c) = Some example_snapshot
     \<and> doc_of 5 (assignments st1 overwrite_all) (VRef c) \<noteq> Some example_snapshot
     \<and> (\<exists>st3 d'. get_s 5 (assignments st1 overwrite_all) 6 = Some (st3, d')
           \<and> doc_of 5 st3 d' = Some example_snapshot)"
proof -
  define j where
    "j = JObj [(''_S'', JObj [(''projectPath'', JStr ''project'')]),
               (''_config'', JObj [(''component'', JStr ''users''), (''module'', JStr ''auth'')]),
               (''name'', JStr ''auth''), (''custom'', JObj [(''memory'', JNum 128)]),
               (''functions'',
                  JObj [(''login'',
                    JObj [(''_S'', JObj [(''projectPath'', JStr ''project'')]),
                          (''_config'', JObj [(''function'', JStr ''login'')]),
                          (''handler'', JStr ''login.run'')])])]"
  have closed: "closed_store example_store"
    by code_simp
  have readable: "doc_of 5 example_store (VRef 6) = Some j"
    unfolding j_def by code_simp
  have shape: "module_shape example_store 6"
    by code_simp
  have snap: "snapshot j = example_snapshot"
    unfolding j_def by code_simp
  have len: "length example_store = 7"
    by code_simp
  have fresh: "list_all (\<lambda>w. length example_store \<le> fst w) overwrite_all"
    by code_simp
  from get_returns_independent_copy [OF closed readable shape] obtain st1 c
    where run: "get_s 5 example_store 6 = Some (st1, VRef c)"
      and frame: "take (length example_store) st1 = example_store"
      and doc: "doc_of 5 st1 (VRef c) = Some (snapshot j)"
      and again: "\<forall>ws. list_all (\<lambda>w. length example_store \<le> fst w) ws \<longrightarrow>
           (\<exists>st3 d'. get_s 5 (assignments st1 ws) 6 = Some (st3, d')
               \<and> doc_of 5 st3 d' = Some (snapshot j))"
    by blast
  have st1: "st1 = fst (the (get_s 5 example_store 6))"
    and c: "VRef c = snd (the (get_s 5 example_store 6))"
    using run by simp_all
  have changed: "doc_of 5 (assignments st1 overwrite_all) (VRef c) \<noteq> Some example_snapshot"
    unfolding st1 c by code_simp
  from again fresh obtain st3 d'
    where "get_s 5 (assignments st1 overwrite_all) 6 = Some (st3, d')"
      and "doc_of 5 st3 d' = Some (snapshot j)"
    by blast
  then have "\<exists>st3 d'. get_s 5 (assignments st1 overwrite_all) 6 = Some (st3, d')
           \<and> doc_of 5 st3 d' = Some example_snapshot"
    using snap by auto
  with run frame len doc snap changed show ?thesis
    by auto
qed

end

